theory Spec2Isabelle
  imports Main "HOL-Library.Word"
begin

section \<open>Machine integers and the chunk header (imagehdr.h)\<close>

type_synonym u16 = "16 word"
type_synonym u32 = "32 word"
type_synonym u64 = "64 word"
type_synonym s32 = "32 word"
type_synonym bytes = "8 word list"

text \<open>
  The magic number doubles as the version number of the image format.
\<close>

definition COMPRESSED_MAGIC_BASE :: u32 where
  "COMPRESSED_MAGIC_BASE = 0x69696969"

definition COMPRESSED_V1 :: u32 where
  "COMPRESSED_V1 = COMPRESSED_MAGIC_BASE + 0"

definition COMPRESSED_V2 :: u32 where
  "COMPRESSED_V2 = COMPRESSED_MAGIC_BASE + 1"

definition COMPRESSED_V3 :: u32 where
  "COMPRESSED_V3 = COMPRESSED_MAGIC_BASE + 2"

definition COMPRESSED_V4 :: u32 where
  "COMPRESSED_V4 = COMPRESSED_MAGIC_BASE + 3"

definition COMPRESSED_V5 :: u32 where
  "COMPRESSED_V5 = COMPRESSED_MAGIC_BASE + 4"

definition COMPRESSED_V6 :: u32 where
  "COMPRESSED_V6 = COMPRESSED_MAGIC_BASE + 5"

definition COMPRESSED_MAGIC_CURRENT :: u32 where
  "COMPRESSED_MAGIC_CURRENT = COMPRESSED_V5"

definition CSUM_NONE :: u16 where
  "CSUM_NONE = 0"

definition CSUM_SHA1 :: u16 where
  "CSUM_SHA1 = 1"

definition CSUM_TYPE :: u16 where
  "CSUM_TYPE = 0xFF"

definition DEFAULTREGIONSIZE :: int where
  "DEFAULTREGIONSIZE = 4096"

definition CHUNKSIZE :: int where
  "CHUNKSIZE = 1024 * 1024"

text \<open>
  A chunk header as the readers see it: \<open>blockhdr_t\<close> is \<open>struct blockhdr_V5\<close>, and a
  version 6 chunk is read through \<open>struct blockhdr_V6\<close>, which extends it by the cipher
  and the checksum type. The field \<open>size\<close> of the C struct is \<open>hdr_size\<close> here. Signed
  32-bit fields are words read with \<open>sint\<close>.
\<close>

record blockhdr =
  magic :: u32
  hdr_size :: u32
  blockindex :: s32
  blocktotal :: s32
  regionsize :: s32
  regioncount :: s32
  firstsect :: u32
  lastsect :: u32
  reloccount :: s32
  firstsect64 :: u64
  lastsect64 :: u64
  imageid :: bytes
  enc_cipher :: u16
  csum_type :: u16

text \<open>
  A relocation descriptor. The C union \<open>blockreloc_t\<close> is read through \<open>r32\<close> or
  \<open>r64\<close> according to the table's \<open>reloc32\<close> flag; the record holds the fields as the
  code reads them into \<open>ndz_addr_t\<close> and \<open>ndz_size_t\<close> variables (64 bits wide, a
  32-bit field zero-extended). The C fields \<open>type\<close> and \<open>size\<close> are \<open>reloc_type\<close> and
  \<open>reloc_size\<close>.
\<close>

record blockreloc =
  reloc_type :: u32
  sector :: u64
  sectoff :: u32
  reloc_size :: u64

section \<open>The relocation table (libndz/reloc.c)\<close>

text \<open>
  Modelled from the spec: \<open>libndz.h\<close> is not among the sources. It declares
  \<open>struct ndz_file\<close>, of which the relocation routines use the six fields below, and the
  two address bounds \<open>NDZ_LOADDR\<close> and \<open>NDZ_HIADDR\<close>, the lowest and the highest value
  of the 64-bit \<open>ndz_addr_t\<close>, with which \<open>(reloclo, relochi)\<close> start out before they
  bracket the sectors of the entries.

  \<open>relocdata\<close> is \<open>None\<close> for the NULL pointer and otherwise the entries of the array
  in stored order.
\<close>

definition NDZ_LOADDR :: u64 where
  "NDZ_LOADDR = 0"

definition NDZ_HIADDR :: u64 where
  "NDZ_HIADDR = - 1"

record ndz_file =
  reloc32 :: bool
  relocdata :: "blockreloc list option"
  relocentries :: int
  reloclo :: u64
  relochi :: u64
  sectsize :: u64

text \<open>
  A failed \<open>assert\<close> aborts the program; so does a read outside a buffer in the model,
  and so does \<open>free\<close> on a block that was released before (undefined behaviour in C;
  glibc detects the double free and aborts).
\<close>

datatype abort = Assertion_failed | Out_of_bounds | Double_free

definition ndz_reloc_init :: "ndz_file \<Rightarrow> ndz_file" where
  "ndz_reloc_init ndz =
     ndz\<lparr>reloc32 := True, relocdata := None, relocentries := 0,
         reloclo := NDZ_HIADDR, relochi := NDZ_LOADDR\<rparr>"

definition ndz_reloc_free :: "ndz_file \<Rightarrow> ndz_file" where
  "ndz_reloc_free ndz = ndz\<lparr>relocdata := None, relocentries := 0\<rparr>"

text \<open>
  The copy loop of \<open>ndz_reloc_get\<close> over the records of the chunk: each widens the
  bounds and is stored behind the entries already there.
\<close>

fun reloc_get_loop :: "ndz_file \<Rightarrow> blockreloc list \<Rightarrow> abort + ndz_file" where
  "reloc_get_loop ndz [] = Inr ndz"
| "reloc_get_loop ndz (r # rs) =
     (let rsector = sector r;
          ndz1 = (if reloclo ndz = NDZ_HIADDR then ndz\<lparr>reloclo := rsector\<rparr> else ndz)
      in if \<not> reloclo ndz1 \<le> rsector then Inl Assertion_failed
         else
           let ndz2 = (if rsector > relochi ndz1 then ndz1\<lparr>relochi := rsector\<rparr> else ndz1);
               ndz3 = ndz2\<lparr>relocdata := map_option (\<lambda>d. d @ [r]) (relocdata ndz2)\<rparr>
           in reloc_get_loop ndz3 rs)"

text \<open>
  \<open>ndz_reloc_get zero_frees ok ndz hdr buf\<close>: the pointers are taken as non-NULL and
  \<open>buf\<close> is the relocation area of the chunk as a list of records. The result is the
  return value and the table after the call.

  The buffer is resized to \<open>RELOC_RSIZE(reloc32, i)\<close> bytes for
  \<open>i = relocentries + reloccount\<close>; the macro is from the absent \<open>libndz.h\<close> and is the
  size of \<open>i\<close> records, which is 0 exactly when \<open>i\<close> is 0. The C library is given by
  two parameters. \<open>zero_frees\<close> says what \<open>realloc(ptr, 0)\<close> does with a block, which is
  left to the implementation: where it is set (as in glibc) the block is freed and NULL
  is returned. The code takes that NULL for a failure and calls \<open>ndz_reloc_free\<close>, which
  frees the block a second time through \<open>relocdata\<close>, still pointing to it. In every
  other case \<open>ok\<close> says whether \<open>malloc\<close> or \<open>realloc\<close> returns a block; a NULL then
  leaves the old block as it was, and \<open>realloc\<close> keeps the entries that fit in the new
  size.
\<close>

definition ndz_reloc_get ::
  "bool \<Rightarrow> bool \<Rightarrow> ndz_file \<Rightarrow> blockhdr \<Rightarrow> blockreloc list \<Rightarrow> abort + (int \<times> ndz_file)" where
  "ndz_reloc_get zero_frees ok ndz hdr buf =
     (if magic hdr < COMPRESSED_V2 \<or> reloccount hdr = 0 then Inr (0, ndz)
      else
        let is32 = (if magic hdr \<ge> COMPRESSED_V5 then False else True)
        in if relocdata ndz \<noteq> None \<and> is32 \<noteq> reloc32 ndz then Inl Assertion_failed
           else
             let ndz1 = (if relocdata ndz = None then ndz\<lparr>reloc32 := is32\<rparr> else ndz);
                 i = relocentries ndz1 + sint (reloccount hdr)
             in if relocdata ndz1 \<noteq> None \<and> i = 0 \<and> zero_frees then Inl Double_free
                else if \<not> ok then Inr (- 1, ndz_reloc_free ndz1)
                else if int (length buf) < sint (reloccount hdr) then Inl Out_of_bounds
                else
                  let old = (case relocdata ndz1 of None \<Rightarrow> [] | Some d \<Rightarrow> d);
                      ndz2 = ndz1\<lparr>relocdata := Some (take (nat i) old)\<rparr>
                  in case reloc_get_loop ndz2 (take (nat (sint (reloccount hdr))) buf) of
                       Inl a \<Rightarrow> Inl a
                     | Inr ndz3 \<Rightarrow>
                         Inr (0, ndz3\<lparr>relocentries :=
                                        relocentries ndz3 + sint (reloccount hdr)\<rparr>))"

text \<open>
  The scan of \<open>ndz_reloc_put\<close> over the stored entries; \<open>out\<close> is what has been written
  to the chunk's relocation area so far.
\<close>

fun reloc_put_loop ::
  "ndz_file \<Rightarrow> blockhdr \<Rightarrow> blockreloc list \<Rightarrow> blockreloc list \<Rightarrow> abort + blockreloc list" where
  "reloc_put_loop ndz hdr [] out = Inr out"
| "reloc_put_loop ndz hdr (r # rs) out =
     (let rsector = sector r; roffset = (ucast (sectoff r) :: u64); rsize = reloc_size r
      in if \<not> roffset + rsize \<le> sectsize ndz then Inl Assertion_failed
         else if rsector \<ge> ucast (firstsect hdr) \<and> rsector < ucast (lastsect hdr)
           then reloc_put_loop ndz hdr rs (out @ [r])
           else reloc_put_loop ndz hdr rs out)"

text \<open>
  \<open>ndz_reloc_put ndz hdr\<close>: the return value and the records written to the buffer, in
  the order written.
\<close>

definition ndz_reloc_put :: "ndz_file \<Rightarrow> blockhdr \<Rightarrow> abort + (int \<times> blockreloc list)" where
  "ndz_reloc_put ndz hdr =
     (if relocentries ndz = 0 \<or> ucast (firstsect hdr) > relochi ndz
         \<or> ucast (lastsect hdr) \<le> reloclo ndz
      then Inr (0, [])
      else
        let stored = take (nat (relocentries ndz))
                       (case relocdata ndz of None \<Rightarrow> [] | Some d \<Rightarrow> d)
        in case reloc_put_loop ndz hdr stored [] of
             Inl a \<Rightarrow> Inl a
           | Inr out \<Rightarrow> Inr (0, out))"

text \<open>
  The entries of the table: the first \<open>relocentries\<close> elements of the array.
\<close>

definition stored :: "ndz_file \<Rightarrow> blockreloc list" where
  "stored ndz = take (nat (relocentries ndz)) (case relocdata ndz of None \<Rightarrow> [] | Some d \<Rightarrow> d)"

text \<open>
  The records a call of \<open>ndz_reloc_get\<close> reads from the chunk: none for a version 1
  header or a zero count, otherwise the first \<open>reloccount\<close> records of the buffer.
\<close>

definition supplied :: "blockhdr \<Rightarrow> blockreloc list \<Rightarrow> blockreloc list" where
  "supplied hdr buf =
     (if magic hdr < COMPRESSED_V2 \<or> reloccount hdr = 0 then []
      else take (nat (sint (reloccount hdr))) buf)"

text \<open>
  A sequence of calls of \<open>ndz_reloc_get\<close> with one C library, each with its allocation
  outcome, its header and its buffer; \<open>None\<close> unless every call returns 0.
\<close>

fun ndz_reloc_get_all ::
  "bool \<Rightarrow> ndz_file \<Rightarrow> (bool \<times> blockhdr \<times> blockreloc list) list \<Rightarrow> ndz_file option" where
  "ndz_reloc_get_all zero_frees ndz [] = Some ndz"
| "ndz_reloc_get_all zero_frees ndz ((ok, hdr, buf) # calls) =
     (case ndz_reloc_get zero_frees ok ndz hdr buf of
        Inr (rv, ndz') \<Rightarrow> if rv = 0 then ndz_reloc_get_all zero_frees ndz' calls else None
      | Inl a \<Rightarrow> None)"

text \<open>
  The bounds as the copy loop keeps them over the entries \<open>d\<close>, and the table as the
  calls keep it.
\<close>

definition bounds_ok :: "ndz_file \<Rightarrow> blockreloc list \<Rightarrow> bool" where
  "bounds_ok ndz d =
     (if d = [] then reloclo ndz = NDZ_HIADDR \<and> relochi ndz = NDZ_LOADDR
      else reloclo ndz = sector (hd d) \<and> relochi ndz = sector (last d))"

definition table_ok :: "ndz_file \<Rightarrow> bool" where
  "table_ok ndz =
     (relocentries ndz = int (length (case relocdata ndz of None \<Rightarrow> [] | Some d \<Rightarrow> d))
      \<and> bounds_ok ndz (stored ndz))"

text \<open>Sample headers, records and tables.\<close>

definition ex_hdr :: "u32 \<Rightarrow> s32 \<Rightarrow> u32 \<Rightarrow> u32 \<Rightarrow> blockhdr" where
  "ex_hdr m n f l =
     \<lparr>magic = m, hdr_size = 0, blockindex = 0, blocktotal = 0, regionsize = 4096,
      regioncount = 0, firstsect = f, lastsect = l, reloccount = n, firstsect64 = 0,
      lastsect64 = 0, imageid = [], enc_cipher = 0, csum_type = 0\<rparr>"

definition ex_reloc :: "u64 \<Rightarrow> blockreloc" where
  "ex_reloc s = \<lparr>reloc_type = 1, sector = s, sectoff = 0, reloc_size = 512\<rparr>"

definition ex_ndz :: "blockreloc list option \<Rightarrow> u64 \<Rightarrow> u64 \<Rightarrow> ndz_file" where
  "ex_ndz d lo hi =
     \<lparr>reloc32 = True, relocdata = d, relocentries = int (length (case d of None \<Rightarrow> [] | Some x \<Rightarrow> x)),
      reloclo = lo, relochi = hi, sectsize = 512\<rparr>"

section \<open>The image dumper (imagedump.c)\<close>

text \<open>
  The command line options that bear on the exit status (\<open>-q\<close> as \<open>quickcheck_flag\<close>, \<open>-i\<close>), and the
  file-level statics that \<open>dumpfile\<close> sets from the first chunk and \<open>dumpchunk\<close> reads.
  The statistics counters and everything printed are left out: no return value depends on
  them. \<open>dumphash\<close> is never set and \<open>WITH_CRYPTO\<close> cannot be defined (imagehdr.h refuses
  it), so the code under them is not modelled.
\<close>

record dumpopts =
  quickcheck_flag :: bool
  ignorev1 :: bool

record dumpglobals =
  checksums :: bool
  g_magic :: u32
  chunkcount :: u64
  g_imageid :: bytes
  sigtype :: u16
  enctype :: u16

definition UUID_LENGTH :: nat where
  "UUID_LENGTH = 16"

text \<open>
  The checks of \<open>dumpchunk\<close> that follow the switch on the magic: chunk index, chunk
  count and compressed size. Past them the function only gathers statistics and
  returns 0.
\<close>

definition dumpchunk_checks :: "dumpglobals \<Rightarrow> blockhdr \<Rightarrow> int \<Rightarrow> bool \<Rightarrow> int" where
  "dumpchunk_checks g hdr chunkno checkindex =
     (if checkindex \<and> sint (blockindex hdr) \<noteq> chunkno then 1
      else if chunkcount g \<noteq> 0 \<and> (scast (blocktotal hdr) :: u64) \<noteq> chunkcount g then 1
      else if hdr_size hdr > 0x100000 - regionsize hdr then 1
      else 0)"

definition dumpchunk :: "dumpglobals \<Rightarrow> blockhdr \<Rightarrow> int \<Rightarrow> bool \<Rightarrow> int" where
  "dumpchunk g hdr chunkno checkindex =
     (if magic hdr = COMPRESSED_V1 then dumpchunk_checks g hdr chunkno checkindex
      else if magic hdr = COMPRESSED_V2 \<or> magic hdr = COMPRESSED_V3
        then dumpchunk_checks g hdr chunkno checkindex
      else if magic hdr = COMPRESSED_V5 then
        (if chunkno > 0 \<and> take UUID_LENGTH (g_imageid g) \<noteq> take UUID_LENGTH (imageid hdr)
         then 1
         else dumpchunk_checks g hdr chunkno checkindex)
      else if magic hdr = COMPRESSED_V6 then
        (if chunkno > 0 \<and> sigtype g \<noteq> csum_type hdr then 1
         else if chunkno > 0 \<and> enctype g \<noteq> enc_cipher hdr then 1
         else if chunkno > 0
                 \<and> take UUID_LENGTH (g_imageid g) \<noteq> take UUID_LENGTH (imageid hdr)
           then 1
         else if checksums g \<and> csum_type hdr \<noteq> CSUM_NONE
                 \<and> and (csum_type hdr) CSUM_TYPE \<noteq> CSUM_SHA1
           then 1
         else dumpchunk_checks g hdr chunkno checkindex)
      else 1)"

text \<open>
  What reading one chunk of the file gives: whether the \<open>lseek\<close> succeeds (it is done only
  when the input is not stdin and checksums are off), and then a read error, a short
  read, or the chunk with its header. The end of the list is the end of the file.
\<close>

datatype read_result = Read_error | Short_read | Header blockhdr

record chunk_io =
  seek_ok :: bool
  rd :: read_result

text \<open>
  The first-chunk block of \<open>dumpfile\<close>, after the magic has passed the range check and
  quickcheck is off: the new \<open>checkindex\<close>, the new \<open>filesize\<close> and the statics.
\<close>

definition first_chunk ::
  "dumpopts \<Rightarrow> bool \<Rightarrow> blockhdr \<Rightarrow> int \<Rightarrow> dumpglobals \<Rightarrow> bool \<times> int \<times> dumpglobals" where
  "first_chunk opts isstdin hdr filesize g =
     (let g1 = (if checksums g \<and> g_magic g < COMPRESSED_V6 then g\<lparr>checksums := False\<rparr> else g);
          g2 = (if ignorev1 opts then g1\<lparr>chunkcount := 0\<rparr>
                else g1\<lparr>chunkcount := scast (blocktotal hdr)\<rparr>);
          checkindex = (\<not> ignorev1 opts);
          differ = ((word_of_int (filesize div CHUNKSIZE) :: u64) \<noteq> chunkcount g2);
          filesize' = (if differ \<and> chunkcount g2 \<noteq> 0 \<and> isstdin
                       then uint (chunkcount g2) * CHUNKSIZE else filesize);
          checkindex' = (if differ \<and> chunkcount g2 = 0 \<and> g_magic g2 = COMPRESSED_V1
                         then False else checkindex);
          g3 = (if g_magic g2 \<ge> COMPRESSED_V5 then g2\<lparr>g_imageid := take UUID_LENGTH (imageid hdr)\<rparr>
                else g2);
          g4 = (if g_magic g3 \<ge> COMPRESSED_V6
                then g3\<lparr>sigtype := csum_type hdr, enctype := enc_cipher hdr\<rparr> else g3)
      in (checkindex', filesize', g4))"

text \<open>
  The chunk loop of \<open>dumpfile\<close>: the chunks still to read, the chunk number,
  \<open>checkindex\<close>, \<open>filesize\<close> and the statics; the result is the return value of
  \<open>dumpfile\<close> with the statics it leaves.
\<close>

fun dumpfile_loop ::
  "dumpopts \<Rightarrow> bool \<Rightarrow> chunk_io list \<Rightarrow> int \<Rightarrow> bool \<Rightarrow> int \<Rightarrow> dumpglobals
     \<Rightarrow> int \<times> dumpglobals" where
  "dumpfile_loop opts isstdin [] chunkno checkindex filesize g = (0, g)"
| "dumpfile_loop opts isstdin (c # cs) chunkno checkindex filesize g =
     (if \<not> (isstdin \<or> checksums g) \<and> \<not> seek_ok c then (1, g)
      else case rd c of
        Read_error \<Rightarrow> (1, g)
      | Short_read \<Rightarrow> (1, g)
      | Header hdr \<Rightarrow>
          if chunkno = 0 then
            (let g1 = g\<lparr>g_magic := magic hdr\<rparr>
             in if g_magic g1 < COMPRESSED_MAGIC_BASE \<or> g_magic g1 > COMPRESSED_MAGIC_CURRENT
                then (1, g1)
                else if quickcheck_flag opts then (0, g1)
                else case first_chunk opts isstdin hdr filesize g1 of
                  (checkindex', filesize', g2) \<Rightarrow>
                    if dumpchunk g2 hdr chunkno checkindex' \<noteq> 0 then (1, g2)
                    else dumpfile_loop opts isstdin cs (chunkno + 1) checkindex' filesize' g2)
          else
            (let checkindex' =
                   (if chunkno = 1 \<and> \<not> ignorev1 opts \<and> isstdin \<and> filesize = 0
                       \<and> blockindex hdr = 0
                    then False else checkindex)
             in if dumpchunk g hdr chunkno checkindex' \<noteq> 0 then (1, g)
                else dumpfile_loop opts isstdin cs (chunkno + 1) checkindex' filesize g))"

text \<open>
  An input file: whether it is stdin, whether \<open>open\<close> succeeds, what \<open>fstat\<close> gives
  (\<open>None\<close> when it fails, else the size) and its chunks.
\<close>

record infile =
  is_stdin :: bool
  open_ok :: bool
  st_size :: "int option"
  chunks :: "chunk_io list"

definition dumpfile :: "dumpopts \<Rightarrow> infile \<Rightarrow> dumpglobals \<Rightarrow> int \<times> dumpglobals" where
  "dumpfile opts f g =
     (if \<not> is_stdin f \<and> st_size f = None then (1, g)
      else
        let filesize = (if is_stdin f then 0 else the (st_size f))
        in dumpfile_loop opts (is_stdin f) (chunks f) 0 True filesize g)"

text \<open>
  The file loop of \<open>main\<close> and its exit status, the number of errors. Without a file
  name, and with more than one in quickcheck mode, \<open>main\<close> exits with 1 at once.
\<close>

fun main_loop :: "dumpopts \<Rightarrow> infile list \<Rightarrow> int \<Rightarrow> dumpglobals \<Rightarrow> int" where
  "main_loop opts [] errors g = errors"
| "main_loop opts (f # fs) errors g =
     (if \<not> is_stdin f \<and> \<not> open_ok f then main_loop opts fs (errors + 1) g
      else case dumpfile opts f g of (e, g') \<Rightarrow> main_loop opts fs (errors + e) g')"

definition imagedump_main :: "dumpopts \<Rightarrow> bool \<Rightarrow> infile list \<Rightarrow> int" where
  "imagedump_main opts copt files =
     (if files = [] then 1
      else if quickcheck_flag opts \<and> length files > 1 then 1
      else main_loop opts files 0
             \<lparr>checksums = copt, g_magic = 0, chunkcount = 0, g_imageid = replicate UUID_LENGTH 0,
              sigtype = 0, enctype = 0\<rparr>)"

text \<open>A regular file that opens and whose first chunk reads in full, with header \<open>hdr\<close>.\<close>

definition file_with_header :: "blockhdr \<Rightarrow> int \<Rightarrow> chunk_io list \<Rightarrow> infile" where
  "file_with_header hdr sz cs =
     \<lparr>is_stdin = False, open_ok = True, st_size = Some sz,
      chunks = \<lparr>seek_ok = True, rd = Header hdr\<rparr> # cs\<rparr>"

section \<open>The hash map (hashmap/hashmap.c)\<close>

subsection \<open>Signatures and ranges\<close>

text \<open>
  Modelled from the spec: \<open>imagehash.h\<close>, \<open>range.h\<close>, \<open>global.h\<close> and \<open>sliceinfo.h\<close> are
  not among the sources. From the spec: a signature has a version in \<open>{1, 2, 3}\<close>, a
  hash type (MD5, SHA1 or SHA256; the field is a 32-bit code, and any other code is
  \<open>HASH_TYPE_other\<close>), a block size and its hash regions; a hash region is
  \<open>(start, size, chunkno, hash)\<close> with a 64-bit start and 32-bit size and chunk number; a
  range is \<open>(start, size)\<close> in absolute 64-bit sectors, chained by \<open>next\<close>. The fields
  \<open>start\<close> and \<open>size\<close> are \<open>hr_start\<close>, \<open>hr_size\<close> of a hash region and \<open>r_start\<close>,
  \<open>r_size\<close> of a range; \<open>nregions\<close> is the length of \<open>regions\<close>. The magic string and the
  padding of the signature header are left out. The written signature is the current
  version, 3. A hash is the list of bytes the hash function gives; what the 64-byte hash
  buffers hold behind it is not modelled.
\<close>

datatype hashtype = HASH_TYPE_MD5 | HASH_TYPE_SHA1 | HASH_TYPE_SHA256 | HASH_TYPE_other u32

definition HASH_VERSION_1 :: u32 where
  "HASH_VERSION_1 = 1"

definition HASH_VERSION_2 :: u32 where
  "HASH_VERSION_2 = 2"

definition HASH_VERSION_3 :: u32 where
  "HASH_VERSION_3 = 3"

definition HASH_VERSION :: u32 where
  "HASH_VERSION = HASH_VERSION_3"

definition SECSIZE :: u64 where
  "SECSIZE = 512"

definition sectobytes :: "u64 \<Rightarrow> u64" where
  "sectobytes s = s * SECSIZE"

definition bytestosec :: "u32 \<Rightarrow> u32" where
  "bytestosec b = b div 512"

definition UINT32_MAX :: u64 where
  "UINT32_MAX = 0xFFFFFFFF"

definition REGPERBLK :: nat where
  "REGPERBLK = 8192"

record hashregion =
  hr_start :: u64
  hr_size :: u32
  hr_chunkno :: u32
  hr_hash :: bytes

record hashinfo =
  hi_version :: u32
  hi_hashtype :: hashtype
  hi_blksize :: u32
  regions :: "hashregion list"

text \<open>
  A pointer to a \<open>struct range\<close>: NULL, the address of one of the two locals
  \<open>dummy_head\<close> and \<open>tmprange\<close> of \<open>hashmap_compute_delta\<close>, or the address of a node on
  the heap.
\<close>

datatype rptr = Null | Dummy_head | Tmprange | Node nat

record range =
  r_start :: u64
  r_size :: u64
  r_next :: rptr

subsection \<open>The environment and the state\<close>

text \<open>
  What the code takes from outside: whether the n-th allocation request succeeds, what
  seeking to and reading \<open>sz\<close> sectors at sector \<open>start\<close> of the disk gives (\<open>None\<close> for
  an error or an early end of file), the fixup subsystem over its own state \<open>'fx\<close>, the
  three hash functions, and the constant \<open>HASHBLK_SIZE\<close> of the absent \<open>imagehash.h\<close>.
\<close>

datatype hashfn = MD5 | SHA1 | SHA256

record 'fx env =
  e_alloc :: "nat \<Rightarrow> bool"
  e_read :: "u64 \<Rightarrow> u32 \<Rightarrow> bytes option"
  e_hasfixup :: "'fx \<Rightarrow> u64 \<Rightarrow> u32 \<Rightarrow> bool"
  e_applyfixups :: "'fx \<Rightarrow> u64 \<Rightarrow> u64 \<Rightarrow> bytes \<Rightarrow> bytes \<times> 'fx"
  e_savefixups :: "'fx \<Rightarrow> 'fx"
  e_restorefixups :: "int \<Rightarrow> 'fx \<Rightarrow> 'fx"
  e_hash :: "hashfn \<Rightarrow> bytes \<Rightarrow> bytes"
  e_HASHBLK_SIZE :: u32

text \<open>
  The calls that release or restore something, in the order made: they are what the
  error path of \<open>hashmap_compute_delta\<close> consists of.
\<close>

datatype call = Savefixups | Restorefixups int | Free_nhinfo | Freeranges rptr

text \<open>
  The state: the statics of hashmap.c (\<open>hashfile\<close> and the scratch buffer \<open>hashdata\<close>
  left out), the state of the fixup subsystem, the number of allocation requests made,
  the heap of range nodes with the next free address, the calls made, and the locals of
  \<open>hashmap_compute_delta\<close> that outlive a step of its walk: the old signature \<open>hinfo\<close>,
  the two ranges \<open>dummy_head\<close> and \<open>tmprange\<close>, and the two cursors. The statistics
  (\<open>HASHSTATS\<close>, with \<open>lastdrangeend\<close> and the gap counters) are left out.
\<close>

record 'fx hstate =
  hash_free :: bool
  hashblksize :: u32
  nhinfo :: "hashinfo option"
  hashlen :: nat
  hashfunc :: hashfn
  imagefd :: int
  poffset :: u64
  fx :: 'fx
  nalloc :: nat
  heap :: "nat \<Rightarrow> range option"
  brk :: nat
  call_log :: "call list"
  hinfo :: "hashinfo option"
  dummy_head :: range
  tmprange :: range
  range_tail :: rptr
  drange :: rptr

text \<open>
  How a function ends: the program aborts, the function fails (it returns -1, or the
  caller goes to its error path) in a state, or it succeeds with a value and a state.
  A loop that runs forever has no outcome: \<open>None\<close>.
\<close>

datatype abort_kind = Assert | Bad_pointer | Division_by_zero | Uninitialised

datatype ('a, 's) outcome = Abort abort_kind | Failed 's | Done 'a 's

definition obind ::
  "('a, 's) outcome option \<Rightarrow> ('a \<Rightarrow> 's \<Rightarrow> ('b, 's) outcome option) \<Rightarrow> ('b, 's) outcome option" where
  "obind m f =
     (case m of
        None \<Rightarrow> None
      | Some (Abort a) \<Rightarrow> Some (Abort a)
      | Some (Failed s) \<Rightarrow> Some (Failed s)
      | Some (Done v s) \<Rightarrow> f v s)"

lemma obind_mono [partial_function_mono]:
  assumes mf: "mono_option B" and mg: "\<And>v s. mono_option (\<lambda>f. C v s f)"
  shows "mono_option (\<lambda>f. obind (B f) (\<lambda>v s. C v s f))"
proof -
  have eq: "\<And>m k. obind m k =
      Option.bind m (\<lambda>r. case r of Abort a \<Rightarrow> Some (Abort a) | Failed s \<Rightarrow> Some (Failed s)
                               | Done v s \<Rightarrow> k v s)"
    by (simp add: obind_def split: option.splits)
  show ?thesis
    unfolding eq
  proof (rule bind_mono[OF mf])
    fix y
    show "mono_option (\<lambda>f. case y of Abort a \<Rightarrow> Some (Abort a) | Failed s \<Rightarrow> Some (Failed s)
                                  | Done v s \<Rightarrow> C v s f)"
      by (cases y) (simp_all add: mg option.const_mono)
  qed
qed

subsection \<open>Reading and writing ranges through pointers\<close>

definition rd_range :: "'fx hstate \<Rightarrow> rptr \<Rightarrow> range option" where
  "rd_range st p =
     (case p of
        Null \<Rightarrow> None
      | Dummy_head \<Rightarrow> Some (dummy_head st)
      | Tmprange \<Rightarrow> Some (tmprange st)
      | Node a \<Rightarrow> heap st a)"

definition wr_range :: "rptr \<Rightarrow> range \<Rightarrow> 'fx hstate \<Rightarrow> 'fx hstate option" where
  "wr_range p r st =
     (case p of
        Null \<Rightarrow> None
      | Dummy_head \<Rightarrow> Some (st\<lparr>dummy_head := r\<rparr>)
      | Tmprange \<Rightarrow> Some (st\<lparr>tmprange := r\<rparr>)
      | Node a \<Rightarrow> (if heap st a = None then None else Some (st\<lparr>heap := fun_upd (heap st) a (Some r)\<rparr>)))"

text \<open>
  \<open>COPYRANGE(r)\<close>: a NULL pointer stays NULL; otherwise the node is copied into
  \<open>tmprange\<close> and the result points there. The result is assigned to \<open>drange\<close> at every
  use, so the model does that too.
\<close>

definition COPYRANGE :: "rptr \<Rightarrow> 'fx hstate \<Rightarrow> (unit, 'fx hstate) outcome" where
  "COPYRANGE r st =
     (if r = Null then Done () (st\<lparr>drange := Null\<rparr>)
      else case rd_range st r of
        None \<Rightarrow> Abort Bad_pointer
      | Some node \<Rightarrow> Done () (st\<lparr>tmprange := node, drange := Tmprange\<rparr>))"

text \<open>
  \<open>drange = COPYRANGE(drange->next); assert(drange == NULL || drange->size > 0)\<close>, the
  step to the next range that the three loops over the ranges share.
\<close>

definition next_drange :: "'fx hstate \<Rightarrow> (unit, 'fx hstate) outcome" where
  "next_drange st =
     (case rd_range st (drange st) of
        None \<Rightarrow> Abort Bad_pointer
      | Some d \<Rightarrow>
          (case COPYRANGE (r_next d) st of
             Done u st1 \<Rightarrow>
               (if drange st1 = Null then Done () st1
                else case rd_range st1 (drange st1) of
                  None \<Rightarrow> Abort Bad_pointer
                | Some d1 \<Rightarrow> if r_size d1 > 0 then Done () st1 else Abort Assert)
           | other \<Rightarrow> other))"

subsection \<open>Hashing a range of the disk\<close>

definition hash_range ::
  "'fx env \<Rightarrow> u64 \<Rightarrow> u32 \<Rightarrow> 'fx hstate \<Rightarrow> (bytes, 'fx hstate) outcome" where
  "hash_range e start sz st =
     (if \<not> 0 \<le> imagefd st \<or> hashlen st = 0 then Abort Assert
      else if \<not> sz \<le> hashblksize st then Abort Assert
      else case e_read e start sz of
        None \<Rightarrow> Failed st
      | Some data \<Rightarrow>
          (if e_hasfixup e (fx st) start sz
           then case e_applyfixups e (fx st) (sectobytes start) (sectobytes (ucast sz)) data of
                  (data', fx') \<Rightarrow> Done (e_hash e (hashfunc st) data') (st\<lparr>fx := fx'\<rparr>)
           else Done (e_hash e (hashfunc st) data) st))"

text \<open>
  \<open>hash_and_cmp\<close>: the value is the result of the comparison (1 when the hashes differ
  in their first \<open>hashlen\<close> bytes, else 0) with the computed hash.
\<close>

definition hash_and_cmp ::
  "'fx env \<Rightarrow> hashregion \<Rightarrow> 'fx hstate \<Rightarrow> (int \<times> bytes, 'fx hstate) outcome" where
  "hash_and_cmp e hashreg st =
     (if \<not> 0 \<le> imagefd st \<or> hashlen st = 0 then Abort Assert
      else case hash_range e (hr_start hashreg) (hr_size hashreg) st of
        Abort a \<Rightarrow> Abort a
      | Failed st1 \<Rightarrow> Failed st1
      | Done h st1 \<Rightarrow>
          Done (if take (hashlen st1) (hr_hash hashreg) \<noteq> take (hashlen st1) h then 1 else 0, h)
            st1)"

subsection \<open>The output range list\<close>

text \<open>
  \<open>add_to_range\<close> is always called with \<open>&range_tail\<close>. The start and the size arrive
  as 32-bit parameters; the parameter \<open>size\<close> is \<open>sz\<close> here and below.
\<close>

definition add_to_range ::
  "'fx env \<Rightarrow> u32 \<Rightarrow> u32 \<Rightarrow> 'fx hstate \<Rightarrow> (unit, 'fx hstate) outcome" where
  "add_to_range e start sz st =
     (case rd_range st (range_tail st) of
        None \<Rightarrow> Abort Bad_pointer
      | Some tail \<Rightarrow>
          if r_start tail + r_size tail = ucast start then
            (case wr_range (range_tail st) (tail\<lparr>r_size := r_size tail + ucast sz\<rparr>) st of
               None \<Rightarrow> Abort Bad_pointer
             | Some st1 \<Rightarrow> Done () st1)
          else if \<not> e_alloc e (nalloc st) then Failed (st\<lparr>nalloc := nalloc st + 1\<rparr>)
          else
            let tmp = brk st;
                st1 = st\<lparr>nalloc := nalloc st + 1, brk := brk st + 1,
                         heap := fun_upd (heap st) tmp
                           (Some \<lparr>r_start = ucast start, r_size = ucast sz, r_next = Null\<rparr>)\<rparr>
            in (case rd_range st1 (range_tail st1) of
                  None \<Rightarrow> Abort Bad_pointer
                | Some tail1 \<Rightarrow>
                    (case wr_range (range_tail st1) (tail1\<lparr>r_next := Node tmp\<rparr>) st1 of
                       None \<Rightarrow> Abort Bad_pointer
                     | Some st2 \<Rightarrow> Done () (st2\<lparr>range_tail := Node tmp\<rparr>))))"

subsection \<open>The new signature\<close>

text \<open>
  \<open>addhash\<close> is always called on \<open>nhinfo\<close>. A first \<open>calloc\<close> that fails followed by a
  \<open>realloc\<close> that succeeds leaves the header uninitialised, and the code goes on to
  count in it; the model stops there. A failing \<open>realloc\<close> leaves \<open>nhinfo\<close> as it was.
\<close>

definition addhash ::
  "'fx env \<Rightarrow> u64 \<Rightarrow> u32 \<Rightarrow> bytes \<Rightarrow> 'fx hstate \<Rightarrow> (unit, 'fx hstate) outcome" where
  "addhash e start sz h st =
     (let fresh = (nhinfo st = None);
          calloc_ok = (fresh \<and> e_alloc e (nalloc st));
          st0 = (if fresh then st\<lparr>nalloc := nalloc st + 1\<rparr> else st);
          hinfo = (case nhinfo st of
                     None \<Rightarrow> \<lparr>hi_version = 0, hi_hashtype = HASH_TYPE_other 0, hi_blksize = 0,
                              regions = []\<rparr>
                   | Some hi \<Rightarrow> hi);
          nreg = length (regions hinfo);
          reg = \<lparr>hr_start = start, hr_size = sz, hr_chunkno = 0, hr_hash = h\<rparr>
      in if nreg mod REGPERBLK = 0 then
           (if \<not> e_alloc e (nalloc st0) then Failed (st0\<lparr>nalloc := nalloc st0 + 1\<rparr>)
            else if fresh \<and> \<not> calloc_ok then Abort Uninitialised
            else Done () (st0\<lparr>nalloc := nalloc st0 + 1,
                              nhinfo := Some (hinfo\<lparr>regions := regions hinfo @ [reg]\<rparr>)\<rparr>))
         else Done () (st0\<lparr>nhinfo := Some (hinfo\<lparr>regions := regions hinfo @ [reg]\<rparr>)\<rparr>))"

text \<open>
  The loop of \<open>add_to_hashmap\<close>, with the local \<open>offset\<close>; \<open>rhash\<close> is \<open>None\<close> for a NULL
  hash.
\<close>

partial_function (option) add_to_hashmap_loop ::
  "'fx env \<Rightarrow> u32 \<Rightarrow> u64 \<Rightarrow> u32 \<Rightarrow> bytes option \<Rightarrow> 'fx hstate
     \<Rightarrow> (unit, 'fx hstate) outcome option" where
  "add_to_hashmap_loop e offset rstart rsize rhash st =
     (if \<not> rsize > 0 then Some (Done () st)
      else
        let hsize =
              (if offset \<noteq> 0 then
                 (let hsize = hashblksize st - offset in if hsize > rsize then rsize else hsize)
               else if rsize > hashblksize st then hashblksize st
               else rsize)
        in obind (Some (case rhash of None \<Rightarrow> hash_range e rstart hsize st
                                    | Some h \<Rightarrow> Done h st))
             (\<lambda>h st1. obind (Some (addhash e rstart hsize h st1))
                (\<lambda>u st2. add_to_hashmap_loop e 0 (rstart + ucast hsize) (rsize - hsize)
                           rhash st2)))"

declare add_to_hashmap_loop.simps [code]

definition add_to_hashmap ::
  "'fx env \<Rightarrow> u64 \<Rightarrow> u32 \<Rightarrow> bytes option \<Rightarrow> 'fx hstate \<Rightarrow> (unit, 'fx hstate) outcome option" where
  "add_to_hashmap e rstart rsize rhash st =
     (if poffset st = - 1 then Some (Abort Assert)
      else if hashblksize st = 0 then Some (Abort Division_by_zero)
      else add_to_hashmap_loop e (ucast ((rstart - poffset st) mod ucast (hashblksize st)))
             rstart rsize rhash st)"

subsection \<open>Writing the signature\<close>

text \<open>
  What \<open>hashmap_write_hashfile\<close> takes from outside: whether the file name can be
  allocated, whether the file opens, the same for the fallback name under \<open>/tmp\<close>, whether
  the conversion buffer can be allocated, whether \<open>write\<close> writes everything, whether
  the modification time can be set, and the size of the hash of a 32-bit region record
  (declared in the absent \<open>imagehash.h\<close>). The derivation of the file name itself is not
  modelled.
\<close>

record wenv =
  w_name_ok :: bool
  w_open_ok :: bool
  w_tmpname_ok :: bool
  w_tmpopen_ok :: bool
  w_cvt_ok :: bool
  w_write_ok :: bool
  w_mtime_ok :: bool
  w_hsize32 :: nat

text \<open>What the function prints to stderr.\<close>

datatype message =
  No_hashinfo | Out_of_memory | Perror | Incompatible_hash_type | Cannot_convert
  | Start_exceeds_32_bits | Incomplete_write | Could_not_set_mtime | Signature_written

text \<open>
  The first loop: every start is made relative to the partition; \<open>None\<close> when an
  assertion fails.
\<close>

fun compensate :: "u64 \<Rightarrow> u32 \<Rightarrow> hashregion list \<Rightarrow> hashregion list option" where
  "compensate off blk [] = Some []"
| "compensate off blk (hreg # rs) =
     (if \<not> hr_size hreg \<le> blk \<or> \<not> hr_start hreg \<ge> off then None
      else map_option ((#) (hreg\<lparr>hr_start := hr_start hreg - off\<rparr>)) (compensate off blk rs))"

text \<open>
  The conversion loop to 32-bit records; \<open>None\<close> when a start is above \<open>UINT32_MAX\<close>.
\<close>

fun narrow :: "nat \<Rightarrow> hashregion list \<Rightarrow> hashregion list option" where
  "narrow n [] = Some []"
| "narrow n (hreg # rs) =
     (if hr_start hreg > UINT32_MAX then None
      else map_option
             ((#) (hreg\<lparr>hr_start := ucast (ucast (hr_start hreg) :: u32),
                        hr_hash := take n (hr_hash hreg)\<rparr>))
             (narrow n rs))"

text \<open>
  The conversion block: the signature to write and the warnings printed.
\<close>

definition convert_hashinfo ::
  "wenv \<Rightarrow> u32 \<Rightarrow> u32 \<Rightarrow> hashinfo \<Rightarrow> hashinfo \<times> message list" where
  "convert_hashinfo w ivers blksize nh =
     (if ivers < COMPRESSED_V5 then
        (if hi_hashtype nh = HASH_TYPE_SHA256 then (nh, [Incompatible_hash_type])
         else if \<not> w_cvt_ok w then (nh, [Cannot_convert])
         else case narrow (w_hsize32 w) (regions nh) of
           None \<Rightarrow> (nh, [Start_exceeds_32_bits])
         | Some regs32 \<Rightarrow>
             (\<lparr>hi_version = HASH_VERSION_2, hi_hashtype = hi_hashtype nh,
               hi_blksize = blksize, regions = regs32\<rparr>, []))
      else (nh, []))"

text \<open>
  \<open>hashmap_write_hashfile\<close>: the return value, the state, the buffer handed to \<open>write\<close>
  (\<open>None\<close> when the function returns before) and the messages.
\<close>

definition hashmap_write_hashfile ::
  "wenv \<Rightarrow> string \<Rightarrow> string \<Rightarrow> u32 \<Rightarrow> 'fx hstate
     \<Rightarrow> abort_kind + (int \<times> 'fx hstate \<times> hashinfo option \<times> message list)" where
  "hashmap_write_hashfile w fname iname ivers st =
     (if poffset st = - 1 then Inl Assert
      else case nhinfo st of
        None \<Rightarrow> Inr (- 1, st, None, [No_hashinfo])
      | Some nh \<Rightarrow>
          (case compensate (poffset st) (hi_blksize nh) (regions nh) of
             None \<Rightarrow> Inl Assert
           | Some regs \<Rightarrow>
               let nh1 = nh\<lparr>regions := regs\<rparr>;
                   st1 = st\<lparr>nhinfo := Some nh1\<rparr>
               in if \<not> w_name_ok w then Inr (- 1, st1, None, [Out_of_memory])
                  else if \<not> w_open_ok w \<and> \<not> w_tmpname_ok w then Inr (- 1, st1, None, [Perror])
                  else if \<not> w_open_ok w \<and> \<not> w_tmpopen_ok w
                    then Inr (- 1, st1, None, [Perror, Perror])
                  else
                    let pre = (if w_open_ok w then [] else [Perror])
                    in (case convert_hashinfo w ivers (hashblksize st1) nh1 of
                          (nh2, warn) \<Rightarrow>
                            let st2 = st1\<lparr>nhinfo := Some nh2\<rparr>
                            in if \<not> w_write_ok w
                               then Inr (- 1, st2, Some nh2, pre @ warn @ [Incomplete_write])
                               else Inr (0, st2, Some nh2,
                                      pre @ warn
                                      @ (if iname \<noteq> ''-'' \<and> \<not> w_mtime_ok w
                                         then [Could_not_set_mtime] else [])
                                      @ [Signature_written]))))"

text \<open>Sample states and environments.\<close>

definition ex_hstate :: "hashinfo option \<Rightarrow> u32 \<Rightarrow> u64 \<Rightarrow> unit hstate" where
  "ex_hstate nh blk off =
     \<lparr>hash_free = True, hashblksize = blk, nhinfo = nh, hashlen = 16, hashfunc = MD5,
      imagefd = 3, poffset = off, fx = (), nalloc = 0, heap = (\<lambda>a. None), brk = 0,
      call_log = [], hinfo = None,
      dummy_head = \<lparr>r_start = - 1, r_size = 0, r_next = Null\<rparr>,
      tmprange = \<lparr>r_start = 0, r_size = 0, r_next = Null\<rparr>,
      range_tail = Null, drange = Null\<rparr>"

definition ex_wenv :: "bool \<Rightarrow> wenv" where
  "ex_wenv cvt =
     \<lparr>w_name_ok = True, w_open_ok = True, w_tmpname_ok = True, w_tmpopen_ok = True,
      w_cvt_ok = cvt, w_write_ok = True, w_mtime_ok = True, w_hsize32 = 20\<rparr>"

definition ex_hinfo :: "hashtype \<Rightarrow> hashregion list \<Rightarrow> hashinfo" where
  "ex_hinfo t regs = \<lparr>hi_version = HASH_VERSION, hi_hashtype = t, hi_blksize = 128, regions = regs\<rparr>"

definition ex_hreg :: "u64 \<Rightarrow> u32 \<Rightarrow> bytes \<Rightarrow> hashregion" where
  "ex_hreg s n h = \<lparr>hr_start = s, hr_size = n, hr_chunkno = 0, hr_hash = h\<rparr>"

subsection \<open>The delta walk (hashmap_compute_delta)\<close>

text \<open>
  Reading \<open>*drange\<close>; a NULL or dangling pointer ends the program.
\<close>

definition deref_drange :: "'fx hstate \<Rightarrow> (range, 'fx hstate) outcome" where
  "deref_drange st =
     (case rd_range st (drange st) of
        None \<Rightarrow> Abort Bad_pointer
      | Some d \<Rightarrow> Done d st)"

text \<open>
  Writing \<open>*drange\<close>.
\<close>

definition assign_drange :: "range \<Rightarrow> 'fx hstate \<Rightarrow> (unit, 'fx hstate) outcome" where
  "assign_drange r st =
     (case wr_range (drange st) r st of
        None \<Rightarrow> Abort Bad_pointer
      | Some st1 \<Rightarrow> Done () st1)"

text \<open>
  \<open>if (newhashfile && add_to_hashmap(&nhinfo, drange->start, ..., NULL)) goto error\<close>
  with the size given by the caller: the start is read from \<open>*drange\<close> at the call.
\<close>

definition hash_new_range ::
  "'fx env \<Rightarrow> bool \<Rightarrow> (range \<Rightarrow> u32) \<Rightarrow> 'fx hstate \<Rightarrow> (unit, 'fx hstate) outcome option" where
  "hash_new_range e newhashfile sz st =
     (if newhashfile
      then obind (Some (deref_drange st))
             (\<lambda>d st1. add_to_hashmap e (r_start d) (sz d) None st1)
      else Some (Done () st))"

text \<open>
  The first inner loop: the ranges that end at or before the start of the hash region
  are new; they go to the output and, hashed, to the new signature.
\<close>

partial_function (option) pre_hreg_loop ::
  "'fx env \<Rightarrow> bool \<Rightarrow> hashregion \<Rightarrow> 'fx hstate \<Rightarrow> (unit, 'fx hstate) outcome option" where
  "pre_hreg_loop e newhashfile hreg st =
     (if drange st = Null then Some (Done () st)
      else obind (Some (deref_drange st))
        (\<lambda>d st0.
           if \<not> r_start d + r_size d \<le> hr_start hreg then Some (Done () st0)
           else obind (Some (add_to_range e (ucast (r_start d)) (ucast (r_size d)) st0))
             (\<lambda>u st1. obind (hash_new_range e newhashfile (\<lambda>d. ucast (r_size d)) st1)
                (\<lambda>u st2. obind (Some (next_drange st2))
                   (\<lambda>u st3. pre_hreg_loop e newhashfile hreg st3)))))"

declare pre_hreg_loop.simps [code]

text \<open>
  The head split: the part of the range before the hash region is new; \<open>*drange\<close> is
  narrowed to the rest.
\<close>

definition head_split ::
  "'fx env \<Rightarrow> bool \<Rightarrow> hashregion \<Rightarrow> 'fx hstate \<Rightarrow> (unit, 'fx hstate) outcome option" where
  "head_split e newhashfile hreg st =
     obind (Some (deref_drange st))
       (\<lambda>d st0.
          if r_start d < hr_start hreg then
            (let before = (ucast (hr_start hreg - r_start d) :: u32)
             in obind (Some (add_to_range e (ucast (r_start d)) before st0))
                  (\<lambda>u st1. obind (hash_new_range e newhashfile (\<lambda>d. before) st1)
                     (\<lambda>u st2. obind (Some (deref_drange st2))
                        (\<lambda>d2 st3.
                           Some (assign_drange
                                   (d2\<lparr>r_start := r_start d2 + ucast before,
                                       r_size := r_size d2 - ucast before\<rparr>) st3)))))
          else Some (Done () st0))"

text \<open>
  The overlap decision: the value is \<open>changed\<close>. With a hash computed and a new
  signature asked for, the hash region goes to the new signature with the new hash.
\<close>

definition overlap_decision ::
  "'fx env \<Rightarrow> bool \<Rightarrow> hashregion \<Rightarrow> 'fx hstate \<Rightarrow> (int, 'fx hstate) outcome option" where
  "overlap_decision e newhashfile hreg st =
     obind (Some (deref_drange st))
       (\<lambda>d st0.
          if hash_free st0 \<or> (r_start d = hr_start hreg \<and> r_size d \<ge> ucast (hr_size hreg)) then
            (if e_hasfixup e (fx st0) (hr_start hreg) (hr_size hreg) then Some (Done 3 st0)
             else obind (Some (hash_and_cmp e hreg st0))
                    (\<lambda>ch st1.
                       if newhashfile
                       then obind (add_to_hashmap e (hr_start hreg) (hr_size hreg)
                                     (Some (snd ch)) st1)
                              (\<lambda>u st2. Some (Done (fst ch) st2))
                       else Some (Done (fst ch) st1)))
          else Some (Done 2 st0))"

text \<open>
  The second inner loop, over the ranges that start inside the hash region. The four
  locals \<open>curstart\<close>, \<open>curend\<close>, \<open>hregstart\<close> and \<open>hregend\<close> are 32 bits wide.
\<close>

partial_function (option) covered_loop ::
  "'fx env \<Rightarrow> bool \<Rightarrow> hashregion \<Rightarrow> int \<Rightarrow> 'fx hstate \<Rightarrow> (unit, 'fx hstate) outcome option" where
  "covered_loop e newhashfile hreg changed st =
     (if drange st = Null then Some (Done () st)
      else obind (Some (deref_drange st))
        (\<lambda>d st0.
           if \<not> r_start d < hr_start hreg + ucast (hr_size hreg) then Some (Done () st0)
           else
             let curstart = (ucast (r_start d) :: u32);
                 curend0 = curstart + ucast (r_size d);
                 hregstart = (ucast (hr_start hreg) :: u32);
                 hregend = hregstart + hr_size hreg;
                 curend = (if curend0 > hregend then hregend else curend0)
             in obind (Some (if curend0 > hregend
                             then assign_drange
                                    (d\<lparr>r_start := ucast hregend,
                                       r_size := ucast (curend0 - hregend)\<rparr>) st0
                             else Done () st0))
                  (\<lambda>u st1.
                     if \<not> curstart \<ge> hregstart \<or> \<not> curend \<le> hregend then Some (Abort Assert)
                     else obind (if changed \<noteq> 0
                                 then obind (Some (add_to_range e curstart (curend - curstart) st1))
                                        (\<lambda>u st2.
                                           if changed > 1 \<and> newhashfile
                                           then add_to_hashmap e (ucast curstart)
                                                  (curend - curstart) None st2
                                           else Some (Done () st2))
                                 else Some (Done () st1))
                            (\<lambda>u st3. obind (Some (deref_drange st3))
                               (\<lambda>d3 st4.
                                  if ucast curstart = r_start d3
                                  then obind (Some (next_drange st4))
                                         (\<lambda>u st5. covered_loop e newhashfile hreg changed st5)
                                  else covered_loop e newhashfile hreg changed st4)))))"

declare covered_loop.simps [code]

text \<open>
  The body of the loop over the hash regions, in two parts. The value says whether the
  loop is left with \<open>break\<close>. First the part for a hash region that overlaps the
  current range: head split, decision, the loop over the covered ranges.
\<close>

definition hreg_overlap ::
  "'fx env \<Rightarrow> bool \<Rightarrow> hashregion \<Rightarrow> 'fx hstate \<Rightarrow> (bool, 'fx hstate) outcome option" where
  "hreg_overlap e newhashfile hreg st =
     obind (head_split e newhashfile hreg st)
       (\<lambda>u st2. obind (overlap_decision e newhashfile hreg st2)
          (\<lambda>changed st3.
             if drange st3 = Null then Some (Abort Assert)
             else obind (Some (deref_drange st3))
               (\<lambda>d3 st3a.
                  if \<not> r_start d3 < hr_start hreg + ucast (hr_size hreg) then Some (Abort Assert)
                  else obind (covered_loop e newhashfile hreg changed st3a)
                    (\<lambda>u st4.
                       if drange st4 = Null then Some (Done True st4)
                       else obind (Some (deref_drange st4))
                         (\<lambda>d4 st4a.
                            if \<not> r_start d4 \<ge> hr_start hreg + ucast (hr_size hreg)
                            then Some (Abort Assert)
                            else Some (Done False st4a))))))"

definition hreg_body ::
  "'fx env \<Rightarrow> bool \<Rightarrow> hashregion \<Rightarrow> 'fx hstate \<Rightarrow> (bool, 'fx hstate) outcome option" where
  "hreg_body e newhashfile hreg st =
     (if drange st = Null then Some (Abort Assert)
      else obind (Some (deref_drange st))
        (\<lambda>d st0.
           if \<not> r_size d > 0 then Some (Abort Assert)
           else obind (pre_hreg_loop e newhashfile hreg st0)
             (\<lambda>u st1.
                if drange st1 = Null then Some (Done True st1)
                else obind (Some (deref_drange st1))
                  (\<lambda>d1 st1a.
                     if \<not> hr_start hreg < r_start d1 + r_size d1 then Some (Abort Assert)
                     else if hr_start hreg + ucast (hr_size hreg) \<le> r_start d1
                       then Some (Done False st1a)
                     else hreg_overlap e newhashfile hreg st1a))))"

text \<open>
  The loop over the hash regions; the value says whether it ran through all of them
  (\<open>hreg == ereg\<close>).
\<close>

fun hreg_loop ::
  "'fx env \<Rightarrow> bool \<Rightarrow> hashregion list \<Rightarrow> 'fx hstate \<Rightarrow> (bool, 'fx hstate) outcome option" where
  "hreg_loop e newhashfile [] st = Some (Done True st)"
| "hreg_loop e newhashfile (hreg # hregs) st =
     (case hreg_body e newhashfile hreg st of
        None \<Rightarrow> None
      | Some (Abort a) \<Rightarrow> Some (Abort a)
      | Some (Failed st1) \<Rightarrow> Some (Failed st1)
      | Some (Done left st1) \<Rightarrow>
          if left then Some (Done False st1) else hreg_loop e newhashfile hregs st1)"

text \<open>
  The last loop: the ranges left over are new. \<open>at_end\<close> is \<open>hreg == ereg\<close>.
\<close>

partial_function (option) final_loop ::
  "'fx env \<Rightarrow> bool \<Rightarrow> bool \<Rightarrow> 'fx hstate \<Rightarrow> (unit, 'fx hstate) outcome option" where
  "final_loop e newhashfile at_end st =
     (if drange st = Null then Some (Done () st)
      else if \<not> at_end then Some (Abort Assert)
      else obind (Some (deref_drange st))
        (\<lambda>d st0. obind (Some (add_to_range e (ucast (r_start d)) (ucast (r_size d)) st0))
           (\<lambda>u st1. obind (hash_new_range e newhashfile (\<lambda>d. ucast (r_size d)) st1)
              (\<lambda>u st2. obind (Some (next_drange st2))
                 (\<lambda>u st3. final_loop e newhashfile at_end st3)))))"

declare final_loop.simps [code]

text \<open>
  \<open>readhashinfo\<close>. \<open>file\<close> is what opening, reading, checking and widening the
  signature file gives: \<open>None\<close> when one of them fails, else the header and the regions
  as stored. The value is the signature in memory, with every start made absolute.
\<close>

definition readhashinfo ::
  "'fx env \<Rightarrow> hashinfo option \<Rightarrow> 'fx hstate \<Rightarrow> (hashinfo, 'fx hstate) outcome" where
  "readhashinfo e file st =
     (if poffset st = - 1 then Abort Assert
      else case file of
        None \<Rightarrow> Failed st
      | Some hi \<Rightarrow>
          if \<not> (hi_version hi = HASH_VERSION_1 \<or> hi_version hi = HASH_VERSION_2
                 \<or> hi_version hi = HASH_VERSION_3) then Failed st
          else
            let hi1 = (if hi_version hi = HASH_VERSION_1
                       then hi\<lparr>hi_blksize := bytestosec (e_HASHBLK_SIZE e)\<rparr> else hi);
                hi2 = (if hi_version hi = HASH_VERSION_1 \<or> hi_version hi = HASH_VERSION_2
                       then hi1\<lparr>hi_version := HASH_VERSION\<rparr> else hi1);
                st1 = st\<lparr>hashblksize := hi_blksize hi2\<rparr>
            in if \<exists>hreg \<in> set (regions hi2). \<not> hr_size hreg \<le> hashblksize st1 then Abort Assert
               else
                 let hi3 = hi2\<lparr>regions :=
                                 map (\<lambda>hreg. hreg\<lparr>hr_start := hr_start hreg + poffset st1\<rparr>)
                                   (regions hi2)\<rparr>
                 in if \<not> e_alloc e (nalloc st1) then Failed (st1\<lparr>nalloc := nalloc st1 + 1\<rparr>)
                    else Done hi3 (st1\<lparr>nalloc := nalloc st1 + 1\<rparr>))"

text \<open>
  The old signature: read from the file \<open>hfile\<close>, or made up empty when \<open>hfile\<close> is NULL,
  which is \<open>None\<close> here.
\<close>

definition old_signature ::
  "'fx env \<Rightarrow> hashinfo option option \<Rightarrow> 'fx hstate \<Rightarrow> (hashinfo, 'fx hstate) outcome" where
  "old_signature e hfile st0 =
     (case hfile of
        Some file \<Rightarrow> readhashinfo e file st0
      | None \<Rightarrow>
          if \<not> e_alloc e (nalloc st0) then Abort Bad_pointer
          else
            let hi = \<lparr>hi_version = HASH_VERSION,
                      hi_hashtype = (if HASH_VERSION \<ge> HASH_VERSION_3
                                     then HASH_TYPE_SHA256 else HASH_TYPE_SHA1),
                      hi_blksize = bytestosec (e_HASHBLK_SIZE e), regions = []\<rparr>;
                st1 = st0\<lparr>nalloc := nalloc st0 + 1, hashblksize := hi_blksize hi\<rparr>
            in if \<not> e_alloc e (nalloc st1)
               then Failed (st1\<lparr>nalloc := nalloc st1 + 1\<rparr>)
               else Done hi (st1\<lparr>nalloc := nalloc st1 + 1\<rparr>))"

text \<open>
  The hash function and the length of its hashes, by the type of the old signature.
\<close>

definition select_hash :: "hashinfo \<Rightarrow> 'fx hstate \<Rightarrow> 'fx hstate" where
  "select_hash hi st1 =
     (case hi_hashtype hi of
        HASH_TYPE_SHA1 \<Rightarrow> st1\<lparr>hashlen := 20, hashfunc := SHA1\<rparr>
      | HASH_TYPE_SHA256 \<Rightarrow> st1\<lparr>hashlen := 32, hashfunc := SHA256\<rparr>
      | other \<Rightarrow> st1\<lparr>hashlen := 16, hashfunc := MD5\<rparr>)"

text \<open>
  Everything of \<open>hashmap_compute_delta\<close> before the walk: the old signature, the hash
  function, the dummy head of the output list, the saved fixups and the first range.
\<close>

definition delta_setup ::
  "'fx env \<Rightarrow> rptr \<Rightarrow> hashinfo option option \<Rightarrow> int \<Rightarrow> u64 \<Rightarrow> bool \<Rightarrow> 'fx hstate
     \<Rightarrow> (unit, 'fx hstate) outcome" where
  "delta_setup e curranges hfile infd ssect newhashfile st =
     (if curranges = Null then Abort Assert
      else
        case old_signature e hfile (st\<lparr>imagefd := infd, poffset := ssect\<rparr>) of
          Abort a \<Rightarrow> Abort a
        | Failed st1 \<Rightarrow> Failed st1
        | Done hi st1 \<Rightarrow>
            let st2 = select_hash hi st1;
                st3 = st2\<lparr>hinfo := Some hi,
                          dummy_head := \<lparr>r_start = - 1, r_size = 0, r_next = Null\<rparr>,
                          range_tail := Dummy_head\<rparr>;
                st4 = (if newhashfile
                       then st3\<lparr>fx := e_savefixups e (fx st3),
                                call_log := call_log st3 @ [Savefixups]\<rparr>
                       else st3)
            in COPYRANGE curranges st4)"

text \<open>
  The walk: the loop over the hash regions and the loop over the ranges left.
\<close>

definition delta_walk ::
  "'fx env \<Rightarrow> bool \<Rightarrow> 'fx hstate \<Rightarrow> (unit, 'fx hstate) outcome option" where
  "delta_walk e newhashfile st =
     obind (hreg_loop e newhashfile (case hinfo st of None \<Rightarrow> [] | Some hi \<Rightarrow> regions hi) st)
       (\<lambda>at_end st1. final_loop e newhashfile at_end st1)"

text \<open>
  The end of a walk that went through: the new signature gets its header and the fixups
  are restored with 1. The value is what \<open>*nranges\<close> is set to.
\<close>

definition delta_finish ::
  "'fx env \<Rightarrow> bool \<Rightarrow> 'fx hstate \<Rightarrow> (rptr, 'fx hstate) outcome" where
  "delta_finish e newhashfile st =
     (let nranges = r_next (dummy_head st)
      in if \<not> newhashfile then Done nranges st
         else
           let calloc_needed = (nhinfo st = None);
               st1 = (if calloc_needed then st\<lparr>nalloc := nalloc st + 1\<rparr> else st)
           in if calloc_needed \<and> \<not> e_alloc e (nalloc st) then Abort Assert
              else
                let old = (case hinfo st1 of
                             None \<Rightarrow> \<lparr>hi_version = 0, hi_hashtype = HASH_TYPE_other 0,
                                      hi_blksize = 0, regions = []\<rparr>
                           | Some hi \<Rightarrow> hi);
                    nh = (case nhinfo st1 of
                            None \<Rightarrow> \<lparr>hi_version = 0, hi_hashtype = HASH_TYPE_other 0,
                                     hi_blksize = 0, regions = []\<rparr>
                          | Some hi \<Rightarrow> hi);
                    nh1 = nh\<lparr>hi_version := HASH_VERSION, hi_hashtype := hi_hashtype old,
                             hi_blksize := (if hi_version old = HASH_VERSION_1
                                            then e_HASHBLK_SIZE e else hi_blksize old)\<rparr>
                in Done nranges
                     (st1\<lparr>nhinfo := Some nh1, fx := e_restorefixups e 1 (fx st1),
                          call_log := call_log st1 @ [Restorefixups 1]\<rparr>))"

text \<open>
  The error path, taken from a failure in the walk: the fixups are restored with 0 when
  a new signature was asked for, the new signature is freed when there is one, and the
  output list is handed to \<open>freeranges\<close>. Freeing is recorded in \<open>call_log\<close>; the static
  \<open>nhinfo\<close> keeps pointing at the freed buffer.
\<close>

definition delta_error :: "'fx env \<Rightarrow> bool \<Rightarrow> 'fx hstate \<Rightarrow> 'fx hstate" where
  "delta_error e newhashfile st =
     (let st1 = (if newhashfile
                 then st\<lparr>fx := e_restorefixups e 0 (fx st),
                         call_log := call_log st @ [Restorefixups 0]\<rparr>
                 else st);
          st2 = (if nhinfo st1 \<noteq> None then st1\<lparr>call_log := call_log st1 @ [Free_nhinfo]\<rparr>
                 else st1)
      in st2\<lparr>call_log := call_log st2 @ [Freeranges (r_next (dummy_head st2))]\<rparr>)"

text \<open>
  \<open>hashmap_compute_delta\<close>: it succeeds with the output list \<open>*nranges\<close> (return value 0)
  or fails (return value -1).
\<close>

definition hashmap_compute_delta ::
  "'fx env \<Rightarrow> rptr \<Rightarrow> hashinfo option option \<Rightarrow> int \<Rightarrow> u64 \<Rightarrow> bool \<Rightarrow> 'fx hstate
     \<Rightarrow> (rptr, 'fx hstate) outcome option" where
  "hashmap_compute_delta e curranges hfile infd ssect newhashfile st =
     (case delta_setup e curranges hfile infd ssect newhashfile st of
        Abort a \<Rightarrow> Some (Abort a)
      | Failed st1 \<Rightarrow> Some (Failed st1)
      | Done u st1 \<Rightarrow>
          (case delta_walk e newhashfile st1 of
             None \<Rightarrow> None
           | Some (Abort a) \<Rightarrow> Some (Abort a)
           | Some (Failed st2) \<Rightarrow> Some (Failed (delta_error e newhashfile st2))
           | Some (Done u st2) \<Rightarrow> Some (delta_finish e newhashfile st2)))"

subsection \<open>The pieces of a range, in the spec's words\<close>

text \<open>
  The entries of the new signature, and the extent of an entry as a pair of numbers.
\<close>

definition nh_regions :: "'fx hstate \<Rightarrow> hashregion list" where
  "nh_regions st = (case nhinfo st of None \<Rightarrow> [] | Some hi \<Rightarrow> regions hi)"

definition extent :: "hashregion \<Rightarrow> nat \<times> nat" where
  "extent r = (unat (hr_start r), unat (hr_size r))"

text \<open>
  The hash chunking as the spec words it, on natural numbers: with
  \<open>offset = (rstart - ssect) mod hashblksize\<close> the first piece has size
  \<open>min (hashblksize - offset) rsize\<close>, and the pieces after it are full blocks until the
  tail. \<open>spec_pieces\<close> is compared below with what \<open>add_to_hashmap\<close> appends.
\<close>

function full_pieces :: "nat \<Rightarrow> nat \<Rightarrow> nat \<Rightarrow> (nat \<times> nat) list" where
  "full_pieces blk start n =
     (if n = 0 \<or> blk = 0 then []
      else (start, min blk n) # full_pieces blk (start + min blk n) (n - min blk n))"
  by pat_completeness auto
termination
  by (relation "measure (\<lambda>(blk, start, n). n)") auto

declare full_pieces.simps [simp del]

definition spec_pieces :: "nat \<Rightarrow> nat \<Rightarrow> nat \<Rightarrow> nat \<Rightarrow> (nat \<times> nat) list" where
  "spec_pieces blk ssect rstart rsize =
     (if rsize = 0 then []
      else
        let offset = (rstart - ssect) mod blk;
            first = min (blk - offset) rsize
        in (rstart, first) # full_pieces blk (rstart + first) (rsize - first))"

text \<open>
  \<open>tiles s n ps\<close>: the pieces \<open>ps\<close> are non-empty, each starts where the one before
  ends, the first starts at \<open>s\<close> and their sizes add up to \<open>n\<close>.
\<close>

fun tiles :: "nat \<Rightarrow> nat \<Rightarrow> (nat \<times> nat) list \<Rightarrow> bool" where
  "tiles s n [] = (n = 0)"
| "tiles s n ((a, k) # ps) = (a = s \<and> 0 < k \<and> k \<le> n \<and> tiles (s + k) (n - k) ps)"

text \<open>
  A sample environment without fixups, whose hash of some data is the data.
\<close>

definition ex_env :: "(nat \<Rightarrow> bool) \<Rightarrow> (u64 \<Rightarrow> u32 \<Rightarrow> bytes option) \<Rightarrow> unit env" where
  "ex_env al rdf =
     \<lparr>e_alloc = al, e_read = rdf, e_hasfixup = (\<lambda>f s n. False),
      e_applyfixups = (\<lambda>f off n d. (d, f)), e_savefixups = (\<lambda>f. f),
      e_restorefixups = (\<lambda>c f. f), e_hash = (\<lambda>fn d. d), e_HASHBLK_SIZE = 65536\<rparr>"

subsection \<open>Range lists on the heap, coverage and the invariant of the walk\<close>

text \<open>
  \<open>path h p xs q\<close>: from the pointer \<open>p\<close> the \<open>next\<close> fields lead through the heap nodes
  \<open>xs\<close>, each given by its address, start and size, to the pointer \<open>q\<close>. A range list
  is a path to NULL.
\<close>

primrec path :: "(nat \<Rightarrow> range option) \<Rightarrow> rptr \<Rightarrow> (nat \<times> u64 \<times> u64) list \<Rightarrow> rptr \<Rightarrow> bool" where
  "path h p [] q = (p = q)"
| "path h p (x # xs) q =
     (p = Node (fst x) \<and>
      (case h (fst x) of
         None \<Rightarrow> False
       | Some r \<Rightarrow> r_start r = fst (snd x) \<and> r_size r = snd (snd x) \<and> path h (r_next r) xs q))"

definition chain :: "(nat \<Rightarrow> range option) \<Rightarrow> rptr \<Rightarrow> (nat \<times> u64 \<times> u64) list \<Rightarrow> bool" where
  "chain h p xs = path h p xs Null"

text \<open>
  The sectors of a range, of a list of ranges and of a hash region, as sets of numbers.
\<close>

definition sectors :: "u64 \<times> u64 \<Rightarrow> nat set" where
  "sectors r = {unat (fst r) ..< unat (fst r) + unat (snd r)}"

definition cov :: "(u64 \<times> u64) list \<Rightarrow> nat set" where
  "cov rs = (\<Union>r \<in> set rs. sectors r)"

definition hsectors :: "hashregion \<Rightarrow> nat set" where
  "hsectors hreg = {unat (hr_start hreg) ..< unat (hr_start hreg) + unat (hr_size hreg)}"

text \<open>
  A hash region matches when the hash of its sectors on the disk agrees with the stored
  hash in the first \<open>len\<close> bytes. \<open>matched\<close> are the sectors of the matching regions.
\<close>

definition disk_hash_matches :: "'fx env \<Rightarrow> hashfn \<Rightarrow> nat \<Rightarrow> hashregion \<Rightarrow> bool" where
  "disk_hash_matches e fn len hreg =
     (case e_read e (hr_start hreg) (hr_size hreg) of
        None \<Rightarrow> False
      | Some data \<Rightarrow> take len (hr_hash hreg) = take len (e_hash e fn data))"

definition matched :: "'fx env \<Rightarrow> hashfn \<Rightarrow> nat \<Rightarrow> hashregion list \<Rightarrow> nat set" where
  "matched e fn len hregs =
     (\<Union>hreg \<in> {hreg \<in> set hregs. disk_hash_matches e fn len hreg}. hsectors hreg)"

text \<open>
  Below the 32-bit limit: the range, or the hash region, ends before sector \<open>2^32\<close>.
\<close>

definition small :: "u64 \<times> u64 \<Rightarrow> bool" where
  "small r = (unat (fst r) + unat (snd r) < 2 ^ 32)"

definition hsmall :: "hashregion \<Rightarrow> bool" where
  "hsmall hreg = (unat (hr_start hreg) + unat (hr_size hreg) < 2 ^ 32)"

text \<open>
  What a function may promise: \<open>ensures m D F\<close> says that if \<open>m\<close> succeeds, \<open>D\<close> holds of
  its value and state, and if it fails, \<open>F\<close> holds of its state.
\<close>

definition ensures ::
  "('a, 's) outcome option \<Rightarrow> ('a \<Rightarrow> 's \<Rightarrow> bool) \<Rightarrow> ('s \<Rightarrow> bool) \<Rightarrow> bool" where
  "ensures m D F =
     (case m of
        None \<Rightarrow> True
      | Some (Abort a) \<Rightarrow> True
      | Some (Failed s) \<Rightarrow> F s
      | Some (Done v s) \<Rightarrow> D v s)"

text \<open>
  The parts of the state that the walk leaves alone, and the parts that the hashing
  leaves alone.
\<close>

definition statics ::
  "'fx hstate \<Rightarrow> bool \<times> u32 \<times> nat \<times> hashfn \<times> int \<times> u64 \<times> call list \<times> hashinfo option" where
  "statics st =
     (hash_free st, hashblksize st, hashlen st, hashfunc st, imagefd st, poffset st,
      call_log st, hinfo st)"

definition walk_view ::
  "'fx hstate \<Rightarrow> (nat \<Rightarrow> range option) \<times> nat \<times> range \<times> range \<times> rptr \<times> rptr" where
  "walk_view st = (heap st, brk st, dummy_head st, tmprange st, range_tail st, drange st)"

text \<open>
  The output list \<open>ys\<close> in a state: it hangs off \<open>dummy_head\<close>, its nodes were allocated
  at or after \<open>b0\<close>, \<open>range_tail\<close> points to its last node (to \<open>dummy_head\<close> when it is
  empty), and nothing coalesces with \<open>dummy_head\<close>.
\<close>

definition outlist :: "nat \<Rightarrow> 'fx hstate \<Rightarrow> (nat \<times> u64 \<times> u64) list \<Rightarrow> bool" where
  "outlist b0 st ys =
     (chain (heap st) (r_next (dummy_head st)) ys \<and>
      range_tail st = (if ys = [] then Dummy_head else Node (fst (last ys))) \<and>
      distinct (map fst ys) \<and> (\<forall>a \<in> fst ` set ys. b0 \<le> a \<and> a < brk st) \<and>
      r_start (dummy_head st) = - 1 \<and> r_size (dummy_head st) = 0)"

text \<open>
  The ranges still to go, \<open>rem\<close>: \<open>drange\<close> is NULL and there is none, or it points to
  \<open>tmprange\<close>, which is the first, and the others are the nodes of the caller's list
  behind it, all allocated before \<open>b0\<close>.
\<close>

definition remaining :: "nat \<Rightarrow> 'fx hstate \<Rightarrow> (u64 \<times> u64) list \<Rightarrow> bool" where
  "remaining b0 st rem =
     (if drange st = Null then rem = []
      else drange st = Tmprange \<and>
           (\<exists>rest. rem = (r_start (tmprange st), r_size (tmprange st)) # map snd rest \<and>
                   chain (heap st) (r_next (tmprange st)) rest \<and>
                   (\<forall>a \<in> fst ` set rest. a < b0)))"

text \<open>
  The frame of the walk: the heap below \<open>b0\<close> is as it was in \<open>h0\<close>, the allocator only
  moved up, the output list is in shape and writes through \<open>drange\<close> go to \<open>tmprange\<close>.
\<close>

definition framed :: "nat \<Rightarrow> (nat \<Rightarrow> range option) \<Rightarrow> 'fx hstate \<Rightarrow> bool" where
  "framed b0 h0 st =
     ((\<forall>a < b0. heap st a = h0 a) \<and> b0 \<le> brk st \<and>
      (drange st = Null \<or> drange st = Tmprange) \<and> (\<exists>ys. outlist b0 st ys))"

text \<open>
  The invariant of the walk: with the ranges \<open>C0\<close> of the caller and the matched
  sectors \<open>M\<close>, every sector of \<open>C0\<close> is in the output, matched or still to go, and the
  output and what is still to go are within \<open>C0\<close>; all below the 32-bit limit.
\<close>

definition walk_inv ::
  "nat \<Rightarrow> (nat \<Rightarrow> range option) \<Rightarrow> nat set \<Rightarrow> nat set \<Rightarrow> 'fx hstate \<Rightarrow> bool" where
  "walk_inv b0 h0 C0 M st =
     ((\<forall>a < b0. heap st a = h0 a) \<and> b0 \<le> brk st \<and>
      (\<exists>ys rem. outlist b0 st ys \<and> remaining b0 st rem \<and>
         (\<forall>r \<in> set (map snd ys). small r) \<and> (\<forall>r \<in> set rem. small r) \<and>
         C0 \<subseteq> cov (map snd ys) \<union> M \<union> cov rem \<and> cov (map snd ys) \<union> cov rem \<subseteq> C0))"

text \<open>
  The regions of the old signature, \<open>hinfo\<close>, as the walk reads them: their starts are
  absolute.
\<close>

definition old_regions :: "'fx hstate \<Rightarrow> hashregion list" where
  "old_regions st = (case hinfo st of None \<Rightarrow> [] | Some hi \<Rightarrow> regions hi)"

text \<open>
  Three relations between a state and a later one, and the invariant with the two lists
  named. \<open>keeps\<close>: the lists, the cursors and the fixed part are as they were (what
  hashing does). \<open>out_step\<close>: the heap of the caller, the current range and the fixed part
  are as they were, and the allocator only moved up (what \<open>add_to_range\<close> does).
  \<open>walk_at\<close>: the state holds the output list \<open>ys\<close> and the ranges to go \<open>rem\<close>, all below
  the 32-bit limit, over the caller's heap \<open>h0\<close> and the fixed part \<open>S\<close>.
\<close>

type_synonym fixed_part = "bool \<times> u32 \<times> nat \<times> hashfn \<times> int \<times> u64 \<times> call list \<times> hashinfo option"

definition keeps :: "'fx hstate \<Rightarrow> 'fx hstate \<Rightarrow> bool" where
  "keeps st st' = (walk_view st' = walk_view st \<and> statics st' = statics st)"

definition out_step :: "nat \<Rightarrow> 'fx hstate \<Rightarrow> 'fx hstate \<Rightarrow> bool" where
  "out_step b0 st st' =
     ((\<forall>a<b0. heap st' a = heap st a) \<and> brk st \<le> brk st' \<and> tmprange st' = tmprange st \<and>
      drange st' = drange st \<and> statics st' = statics st)"

definition walk_at ::
  "nat \<Rightarrow> (nat \<Rightarrow> range option) \<Rightarrow> fixed_part \<Rightarrow> 'fx hstate \<Rightarrow> (nat \<times> u64 \<times> u64) list
     \<Rightarrow> (u64 \<times> u64) list \<Rightarrow> bool" where
  "walk_at b0 h0 S st ys rem =
     ((\<forall>a<b0. heap st a = h0 a) \<and> b0 \<le> brk st \<and> outlist b0 st ys \<and> remaining b0 st rem \<and>
      (\<forall>r \<in> set (map snd ys). small r) \<and> (\<forall>r \<in> set rem. small r) \<and> statics st = S)"

text \<open>
  The two conditions that the steps of the walk are proved to keep: \<open>walk_ok\<close> is the
  invariant together with the fixed part, \<open>frame_ok\<close> the frame together with the fixed
  part. \<open>frames m\<close> says that \<open>m\<close> ends in a state with \<open>frame_ok\<close> whether it succeeds or
  fails.
\<close>

definition frame_ok :: "nat \<Rightarrow> (nat \<Rightarrow> range option) \<Rightarrow> fixed_part \<Rightarrow> 'fx hstate \<Rightarrow> bool" where
  "frame_ok b0 h0 S st = (framed b0 h0 st \<and> statics st = S)"

definition walk_ok ::
  "nat \<Rightarrow> (nat \<Rightarrow> range option) \<Rightarrow> nat set \<Rightarrow> nat set \<Rightarrow> fixed_part \<Rightarrow> 'fx hstate \<Rightarrow> bool" where
  "walk_ok b0 h0 C0 M S st = (walk_inv b0 h0 C0 M st \<and> statics st = S)"

definition frames ::
  "nat \<Rightarrow> (nat \<Rightarrow> range option) \<Rightarrow> fixed_part \<Rightarrow> ('a, 'fx hstate) outcome option \<Rightarrow> bool" where
  "frames b0 h0 S m = ensures m (\<lambda>v. frame_ok b0 h0 S) (frame_ok b0 h0 S)"

text \<open>
  What a call gave: the value it returned on success, and the state it succeeded or
  failed in.
\<close>

definition returned :: "('a, 's) outcome option \<Rightarrow> 'a option" where
  "returned m = (case m of Some (Done v s) \<Rightarrow> Some v | _ \<Rightarrow> None)"

definition done_state :: "('a, 's) outcome option \<Rightarrow> 's option" where
  "done_state m = (case m of Some (Done v s) \<Rightarrow> Some s | _ \<Rightarrow> None)"

definition failed_state :: "('a, 's) outcome option \<Rightarrow> 's option" where
  "failed_state m = (case m of Some (Failed s) \<Rightarrow> Some s | _ \<Rightarrow> None)"

text \<open>
  The sectors of the old hash regions that match the disk, in a state.
\<close>

definition matched_in :: "'fx env \<Rightarrow> 'fx hstate \<Rightarrow> nat set" where
  "matched_in e st = matched e (hashfunc st) (hashlen st) (old_regions st)"

text \<open>
  Sample inputs: a state whose heap holds the caller's ranges at the addresses 0, 1, ...,
  each with its start, size and next pointer, and a version 3 signature file with hash
  blocks of 128 sectors.
\<close>

definition ex_ranges :: "(u64 \<times> u64 \<times> rptr) list \<Rightarrow> unit hstate" where
  "ex_ranges rs =
     (ex_hstate None 0 0)\<lparr>heap := (\<lambda>a. if a < length rs
                                       then Some \<lparr>r_start = fst (rs ! a), r_size = fst (snd (rs ! a)),
                                                  r_next = snd (snd (rs ! a))\<rparr>
                                       else None),
                         brk := length rs\<rparr>"

definition ex_sig :: "hashregion list \<Rightarrow> hashinfo option option" where
  "ex_sig regs = Some (Some \<lparr>hi_version = HASH_VERSION_3, hi_hashtype = HASH_TYPE_SHA256,
                             hi_blksize = 128, regions = regs\<rparr>)"

text \<open>
  Sample environments without fixups, whose hash is the data itself: one where every
  allocation succeeds and every read gives no data, one where the allocation requests
  from number \<open>k\<close> on fail, and one where a read gives two bytes that name the request,
  so that different ranges hash differently.
\<close>

definition ex_env_plain :: "unit env" where
  "ex_env_plain = ex_env (\<lambda>n. True) (\<lambda>s n. Some [])"

definition ex_env_short :: "nat \<Rightarrow> unit env" where
  "ex_env_short k = ex_env (\<lambda>n. n < k) (\<lambda>s n. Some [])"

definition ex_env_marked :: "unit env" where
  "ex_env_marked = ex_env (\<lambda>n. True) (\<lambda>s n. Some [ucast s, ucast n])"

section \<open>Conversions between 32-bit and 64-bit values\<close>

lemma unat_lt32: "unat (x :: u32) < 4294967296"
  using unsigned_less[of x] by simp

lemma unat_lt64: "unat (x :: u64) < 18446744073709551616"
  using unsigned_less[of x] by simp

lemma unat_ucast_up: "unat (ucast (x :: u32) :: u64) = unat x"
  using unat_lt32[of x] by (simp add: unsigned_ucast_eq take_bit_nat_eq_self)

lemma unat_ucast_down: "unat (ucast (x :: u64) :: u32) = unat x mod 4294967296"
  by (simp add: unsigned_ucast_eq take_bit_eq_mod)

lemma ucast_ucast_u32: "(x :: u64) \<le> UINT32_MAX \<Longrightarrow> (ucast (ucast x :: u32) :: u64) = x"
  unfolding word_unat_eq_iff word_le_nat_alt UINT32_MAX_def
  by (simp add: unsigned_ucast_eq unsigned_take_bit_eq take_bit_nat_eq_self)


section \<open>Properties of the relocation table\<close>

lemma NDZ_HIADDR_top: "x \<le> NDZ_HIADDR"
  by (simp add: NDZ_HIADDR_def)

lemma reloc_get_loop_inv:
  "reloc_get_loop ndz rs = Inr ndz' \<Longrightarrow> relocdata ndz = Some d \<Longrightarrow> bounds_ok ndz d \<Longrightarrow>
   sorted (map sector (d @ rs)) \<Longrightarrow>
   relocdata ndz' = Some (d @ rs) \<and> bounds_ok ndz' (d @ rs) \<and>
   relocentries ndz' = relocentries ndz \<and> reloc32 ndz' = reloc32 ndz \<and>
   sectsize ndz' = sectsize ndz"
proof (induction rs arbitrary: ndz d)
  case Nil
  then show ?case by simp
next
  case (Cons r rs)
  let ?n1 = "(if reloclo ndz = NDZ_HIADDR then ndz\<lparr>reloclo := sector r\<rparr> else ndz)"
  let ?n2 = "(if sector r > relochi ?n1 then ?n1\<lparr>relochi := sector r\<rparr> else ?n1)"
  let ?n3 = "?n2\<lparr>relocdata := Some (d @ [r])\<rparr>"
  from Cons.prems(1,2) have ok: "reloclo ?n1 \<le> sector r" and
    rec: "reloc_get_loop ?n3 rs = Inr ndz'"
    by (auto simp: Let_def split: if_splits)
  have srt: "sorted (map sector ((d @ [r]) @ rs))" using Cons.prems(4) by simp
  have le: "d \<noteq> [] \<Longrightarrow> sector (last d) \<le> sector r" "d \<noteq> [] \<Longrightarrow> sector (hd d) \<le> sector r"
    using Cons.prems(4) by (auto simp: sorted_append)
  have b: "bounds_ok ?n3 (d @ [r])"
  proof (cases "d = []")
    case True
    with Cons.prems(3) show ?thesis
      by (auto simp: bounds_ok_def NDZ_LOADDR_def not_less)
  next
    case False
    have hi: "reloclo ndz = NDZ_HIADDR \<Longrightarrow> sector r = sector (hd d)"
      using False Cons.prems(3) le(2) NDZ_HIADDR_top[of "sector r"]
      by (simp add: bounds_ok_def)
    have lst: "\<not> relochi ndz < sector r \<Longrightarrow> sector r = sector (last d)"
      using False Cons.prems(3) le(1) by (simp add: bounds_ok_def)
    from False Cons.prems(3) hi lst show ?thesis
      by (auto simp: bounds_ok_def)
  qed
  have d3: "relocdata ?n3 = Some (d @ [r])" by simp
  from Cons.IH[OF rec d3 b srt] show ?case by (simp split: if_splits)
qed

lemma ndz_reloc_get_inv:
  assumes "ndz_reloc_get zf ok ndz hdr buf = Inr (0, ndz')" and "table_ok ndz"
    and "0 \<le> sint (reloccount hdr)"
    and "sorted (map sector (stored ndz @ supplied hdr buf))"
  shows "table_ok ndz' \<and> stored ndz' = stored ndz @ supplied hdr buf"
proof (cases "magic hdr < COMPRESSED_V2 \<or> reloccount hdr = 0")
  case True
  with assms show ?thesis by (simp add: ndz_reloc_get_def supplied_def)
next
  case False
  define n where "n = sint (reloccount hdr)"
  define is32 where "is32 = (if magic hdr \<ge> COMPRESSED_V5 then False else True)"
  define ndz1 where "ndz1 = (if relocdata ndz = None then ndz\<lparr>reloc32 := is32\<rparr> else ndz)"
  define old where "old = (case relocdata ndz1 of None \<Rightarrow> [] | Some d \<Rightarrow> d)"
  define ndz2 where "ndz2 = ndz1\<lparr>relocdata := Some (take (nat (relocentries ndz1 + n)) old)\<rparr>"
  have old1: "(case relocdata ndz of None \<Rightarrow> [] | Some d \<Rightarrow> d) = old"
    and e1: "relocentries ndz1 = relocentries ndz"
    by (auto simp: ndz1_def old_def)
  have len: "relocentries ndz = int (length old)" and st: "stored ndz = old"
    using assms(2) by (auto simp: table_ok_def stored_def old1)
  have eq: "ndz_reloc_get zf ok ndz hdr buf =
     (if relocdata ndz \<noteq> None \<and> is32 \<noteq> reloc32 ndz then Inl Assertion_failed
      else if relocdata ndz1 \<noteq> None \<and> relocentries ndz1 + n = 0 \<and> zf then Inl Double_free
      else if \<not> ok then Inr (- 1, ndz_reloc_free ndz1)
      else if int (length buf) < n then Inl Out_of_bounds
      else case reloc_get_loop ndz2 (take (nat n) buf) of
             Inl a \<Rightarrow> Inl a
           | Inr ndz3 \<Rightarrow> Inr (0, ndz3\<lparr>relocentries := relocentries ndz3 + n\<rparr>))"
    unfolding ndz_reloc_get_def Let_def is32_def ndz1_def ndz2_def n_def old_def
    using False by simp
  have tk: "take (nat (relocentries ndz1 + n)) old = old"
    using len e1 assms(3) by (simp add: n_def)
  have sup: "supplied hdr buf = take (nat n) buf"
    using False by (simp add: supplied_def n_def)
  from assms(1) False obtain ndz3 where
    loop: "reloc_get_loop ndz2 (take (nat n) buf) = Inr ndz3" and
    res: "ndz' = ndz3\<lparr>relocentries := relocentries ndz3 + n\<rparr>" and
    bnd: "\<not> int (length buf) < n"
    unfolding eq by (auto split: if_splits sum.splits)
  have d2: "relocdata ndz2 = Some old" by (simp add: ndz2_def tk)
  have b2: "bounds_ok ndz2 old"
    using assms(2) st by (auto simp: table_ok_def bounds_ok_def ndz2_def ndz1_def)
  have srt: "sorted (map sector (old @ take (nat n) buf))"
    using assms(4) st sup by simp
  from reloc_get_loop_inv[OF loop d2 b2 srt]
  have r: "relocdata ndz3 = Some (old @ take (nat n) buf)"
    "bounds_ok ndz3 (old @ take (nat n) buf)" "relocentries ndz3 = relocentries ndz2"
    by simp_all
  have l3: "int (length (take (nat n) buf)) = n"
    using bnd assms(3) by (simp add: n_def)
  have e3: "relocentries ndz' = int (length (old @ take (nat n) buf))"
    using r(3) res len e1 l3 by (simp add: ndz2_def)
  have d3': "relocdata ndz' = Some (old @ take (nat n) buf)"
    using r(1) res by simp
  have k: "nat (relocentries ndz') = length (old @ take (nat n) buf)"
    using e3 by simp
  have s3: "stored ndz' = old @ take (nat n) buf"
    unfolding stored_def d3' k by (simp only: option.case take_all order_refl)
  have "bounds_ok ndz' (old @ take (nat n) buf)"
    using r(2) res by (simp add: bounds_ok_def)
  then show ?thesis
    using e3 s3 r(1) res st sup by (simp add: table_ok_def)
qed

lemma ndz_reloc_get_all_inv:
  "ndz_reloc_get_all zf ndz calls = Some ndz' \<Longrightarrow> table_ok ndz \<Longrightarrow>
   \<forall>(ok, hdr, buf) \<in> set calls. 0 \<le> sint (reloccount hdr) \<Longrightarrow>
   sorted (map sector (stored ndz @ concat (map (\<lambda>(ok, hdr, buf). supplied hdr buf) calls))) \<Longrightarrow>
   table_ok ndz' \<and>
   stored ndz' = stored ndz @ concat (map (\<lambda>(ok, hdr, buf). supplied hdr buf) calls)"
proof (induction calls arbitrary: ndz)
  case Nil
  then show ?case by simp
next
  case (Cons c calls)
  obtain ok hdr buf where c: "c = (ok, hdr, buf)" by (cases c)
  from Cons.prems(1) c obtain ndz1 where
    g: "ndz_reloc_get zf ok ndz hdr buf = Inr (0, ndz1)" and
    rest: "ndz_reloc_get_all zf ndz1 calls = Some ndz'"
    by (auto split: sum.splits if_splits)
  have nn: "0 \<le> sint (reloccount hdr)" using Cons.prems(3) c by simp
  have s1: "sorted (map sector (stored ndz @ supplied hdr buf))"
    using Cons.prems(4) c by (simp add: sorted_append)
  from ndz_reloc_get_inv[OF g Cons.prems(2) nn s1]
  have t1: "table_ok ndz1" and st1: "stored ndz1 = stored ndz @ supplied hdr buf" by simp_all
  have s2: "sorted (map sector (stored ndz1 @ concat (map (\<lambda>(ok, hdr, buf). supplied hdr buf) calls)))"
    using Cons.prems(4) c st1 by simp
  have nn2: "\<forall>(ok, hdr, buf) \<in> set calls. 0 \<le> sint (reloccount hdr)"
    using Cons.prems(3) by simp
  from Cons.IH[OF rest t1 nn2 s2] show ?case using st1 c by simp
qed

lemma sorted_Min_hd: "sorted xs \<Longrightarrow> xs \<noteq> [] \<Longrightarrow> Min (set xs) = hd xs"
  by (cases xs) (auto intro!: Min_eqI)

lemma sorted_Max_last: "sorted xs \<Longrightarrow> xs \<noteq> [] \<Longrightarrow> Max (set xs) = last xs"
  by (cases xs rule: rev_cases) (auto intro!: Max_eqI simp: sorted_append)

text \<open>
  With record counts that are not negative the table keeps its order and its bounds.
  Starting from the initialised table, after any sequence of calls of \<open>ndz_reloc_get\<close>
  that all return 0, with non-negative record counts and with the records read from the
  chunks in ascending sector order, the stored records are in ascending sector order,
  \<open>reloclo\<close> is the least stored sector and \<open>relochi\<close> the greatest.
\<close>

lemma reloc_get_keeps_order_and_bounds:
  assumes "ndz_reloc_get_all zf (ndz_reloc_init ndz0) calls = Some ndz"
    and "\<forall>(ok, hdr, buf) \<in> set calls. 0 \<le> sint (reloccount hdr)"
    and "sorted (map sector (concat (map (\<lambda>(ok, hdr, buf). supplied hdr buf) calls)))"
  shows "sorted (map sector (stored ndz)) \<and>
         (stored ndz \<noteq> [] \<longrightarrow>
            reloclo ndz = Min (set (map sector (stored ndz))) \<and>
            relochi ndz = Max (set (map sector (stored ndz))))"
proof -
  have t0: "table_ok (ndz_reloc_init ndz0)" and s0: "stored (ndz_reloc_init ndz0) = []"
    by (simp_all add: table_ok_def bounds_ok_def stored_def ndz_reloc_init_def)
  have srt: "sorted (map sector (stored (ndz_reloc_init ndz0) @
               concat (map (\<lambda>(ok, hdr, buf). supplied hdr buf) calls)))"
    using assms(3) s0 by simp
  from ndz_reloc_get_all_inv[OF assms(1) t0 assms(2) srt]
  have t: "table_ok ndz" and
    st: "stored ndz = concat (map (\<lambda>(ok, hdr, buf). supplied hdr buf) calls)"
    using s0 by simp_all
  have s: "sorted (map sector (stored ndz))" using st assms(3) by simp
  have "stored ndz \<noteq> [] \<Longrightarrow> reloclo ndz = Min (set (map sector (stored ndz)))"
    using t s sorted_Min_hd[of "map sector (stored ndz)"]
    by (simp add: table_ok_def bounds_ok_def hd_map)
  moreover have "stored ndz \<noteq> [] \<Longrightarrow> relochi ndz = Max (set (map sector (stored ndz)))"
    using t s sorted_Max_last[of "map sector (stored ndz)"]
    by (simp add: table_ok_def bounds_ok_def last_map)
  ultimately show ?thesis using s by simp
qed

lemma reloc_get_keeps_order_and_bounds_example:
  "ndz_reloc_get_all True (ndz_reloc_init (ex_ndz None 0 0))
     [(True, ex_hdr COMPRESSED_V2 2 0 0, [ex_reloc 5, ex_reloc 9]),
      (True, ex_hdr COMPRESSED_V2 1 0 0, [ex_reloc 12])]
   = Some (ex_ndz (Some [ex_reloc 5, ex_reloc 9, ex_reloc 12]) 5 12)
   \<and> reloclo (ex_ndz (Some [ex_reloc 5, ex_reloc 9, ex_reloc 12]) 5 12)
       = Min (set (map sector (stored (ex_ndz (Some [ex_reloc 5, ex_reloc 9, ex_reloc 12]) 5 12))))
   \<and> relochi (ex_ndz (Some [ex_reloc 5, ex_reloc 9, ex_reloc 12]) 5 12)
       = Max (set (map sector (stored (ex_ndz (Some [ex_reloc 5, ex_reloc 9, ex_reloc 12]) 5 12))))"
proof -
  let ?calls = "[(True, ex_hdr COMPRESSED_V2 2 0 0, [ex_reloc 5, ex_reloc 9]),
      (True, ex_hdr COMPRESSED_V2 1 0 0, [ex_reloc 12])]"
  let ?n = "ex_ndz (Some [ex_reloc 5, ex_reloc 9, ex_reloc 12]) 5 12"
  have run: "ndz_reloc_get_all True (ndz_reloc_init (ex_ndz None 0 0)) ?calls = Some ?n"
    by (simp add: ndz_reloc_get_def ndz_reloc_init_def ex_ndz_def ex_hdr_def ex_reloc_def
          COMPRESSED_V2_def COMPRESSED_V5_def COMPRESSED_MAGIC_BASE_def NDZ_HIADDR_def
          NDZ_LOADDR_def Let_def)
  have nn: "\<forall>(ok, hdr, buf) \<in> set ?calls. 0 \<le> sint (reloccount hdr)"
    by (simp add: ex_hdr_def)
  have srt: "sorted (map sector (concat (map (\<lambda>(ok, hdr, buf). supplied hdr buf) ?calls)))"
    by (simp add: supplied_def ex_hdr_def ex_reloc_def COMPRESSED_V2_def
          COMPRESSED_MAGIC_BASE_def)
  have ne: "stored ?n \<noteq> []" by (simp add: stored_def ex_ndz_def)
  from reloc_get_keeps_order_and_bounds[OF run nn srt] ne run show ?thesis by blast
qed

text \<open>
  Claim C9. The claim has \<open>reloclo\<close> and \<open>relochi\<close> at the least and the greatest stored
  sector after every sequence of successful calls that supply their records in
  ascending order. \<open>ndz_reloc_get\<close> lets a negative \<open>reloccount\<close> through (it returns
  early only for 0) and the code breaks the claim there: on the initialised table a call
  with the records at the sectors 5, 9 and 12 returns 0, and so does a second call whose
  header has the count -1. The second call supplies no record, but shrinks the array and
  \<open>relocentries\<close> to two entries and leaves the bounds alone: the stored sectors are 5
  and 9, and \<open>relochi\<close> is 12.
\<close>

theorem reloc_get_negative_count_bounds:
  "ndz_reloc_get True True (ndz_reloc_init (ex_ndz None 0 0)) (ex_hdr COMPRESSED_V2 3 0 0)
     [ex_reloc 5, ex_reloc 9, ex_reloc 12]
   = Inr (0, ex_ndz (Some [ex_reloc 5, ex_reloc 9, ex_reloc 12]) 5 12)
   \<and> ndz_reloc_get True True (ex_ndz (Some [ex_reloc 5, ex_reloc 9, ex_reloc 12]) 5 12)
       (ex_hdr COMPRESSED_V2 (- 1) 0 0) [ex_reloc 20]
     = Inr (0, ex_ndz (Some [ex_reloc 5, ex_reloc 9]) 5 12)
   \<and> supplied (ex_hdr COMPRESSED_V2 (- 1) 0 0) [ex_reloc 20] = []
   \<and> map sector (stored (ex_ndz (Some [ex_reloc 5, ex_reloc 9]) 5 12)) = [5, 9]
   \<and> relochi (ex_ndz (Some [ex_reloc 5, ex_reloc 9]) 5 12) = 12"
  by (simp add: ndz_reloc_get_def ndz_reloc_init_def ex_ndz_def ex_hdr_def ex_reloc_def
        supplied_def stored_def COMPRESSED_V2_def COMPRESSED_V5_def COMPRESSED_MAGIC_BASE_def
        NDZ_HIADDR_def NDZ_LOADDR_def Let_def)

text \<open>
  Away from a request of size 0 to a library that frees on it, a failing allocation
  makes \<open>ndz_reloc_get\<close> return -1 and leave the table without its array and with no
  entries: every record appended before is lost.
\<close>

lemma reloc_get_alloc_failure:
  assumes "\<not> (magic hdr < COMPRESSED_V2 \<or> reloccount hdr = 0)"
    and "relocdata ndz = None \<or> reloc32 ndz = (\<not> COMPRESSED_V5 \<le> magic hdr)"
    and "relocdata ndz = None \<or> relocentries ndz + sint (reloccount hdr) \<noteq> 0 \<or> \<not> zf"
  shows "\<exists>ndz'. ndz_reloc_get zf False ndz hdr buf = Inr (- 1, ndz') \<and>
           relocdata ndz' = None \<and> relocentries ndz' = 0 \<and> stored ndz' = []"
  using assms by (auto simp: ndz_reloc_get_def ndz_reloc_free_def stored_def Let_def)

lemma reloc_get_alloc_failure_example:
  "ndz_reloc_get True False (ex_ndz (Some [ex_reloc 5, ex_reloc 9]) 5 9)
     (ex_hdr COMPRESSED_V2 1 0 0) [ex_reloc 12]
   = Inr (- 1, ex_ndz None 5 9)"
  by (simp add: ndz_reloc_get_def ndz_reloc_free_def ex_ndz_def ex_hdr_def
        COMPRESSED_V2_def COMPRESSED_V5_def COMPRESSED_MAGIC_BASE_def Let_def)

text \<open>
  Claim C10. The claim has a failing reallocation end in the return value -1 with the
  table discarded. With two entries in the table and a header whose \<open>reloccount\<close> is -2,
  the code calls \<open>realloc\<close> with the size 0. A library that frees on that (glibc) returns
  NULL with the array released; the code takes the failure path, and \<open>ndz_reloc_free\<close>
  frees the array a second time: the call does not return -1, the program aborts.
\<close>

theorem reloc_get_zero_size_double_free:
  "ndz_reloc_get True True (ex_ndz (Some [ex_reloc 5, ex_reloc 9]) 5 9)
     (ex_hdr COMPRESSED_V2 (- 2) 0 0) [ex_reloc 20] = Inl Double_free
   \<and> ndz_reloc_get True False (ex_ndz (Some [ex_reloc 5, ex_reloc 9]) 5 9)
       (ex_hdr COMPRESSED_V2 (- 2) 0 0) [ex_reloc 20] = Inl Double_free"
  by (simp add: ndz_reloc_get_def ex_ndz_def ex_hdr_def
        COMPRESSED_V2_def COMPRESSED_V5_def COMPRESSED_MAGIC_BASE_def Let_def)

lemma reloc_put_loop_filter:
  "\<forall>r \<in> set rs. ucast (sectoff r) + reloc_size r \<le> sectsize ndz \<Longrightarrow>
   reloc_put_loop ndz hdr rs out =
     Inr (out @ filter (\<lambda>r. ucast (firstsect hdr) \<le> sector r \<and> sector r < ucast (lastsect hdr)) rs)"
  by (induction rs arbitrary: out) (simp_all add: Let_def)

text \<open>
  Claim C8, as the code has it. For a table whose bounds bracket its entries and whose
  entries pass the size assertion, \<open>ndz_reloc_put\<close> writes exactly the stored records
  with sector in \<open>[firstsect, lastsect)\<close>, in stored order, scanning the whole table,
  and returns 0.
\<close>

theorem reloc_put_selects:
  assumes "relocdata ndz = Some d" and "relocentries ndz = int (length d)"
    and "\<forall>r \<in> set d. reloclo ndz \<le> sector r \<and> sector r \<le> relochi ndz"
    and "\<forall>r \<in> set d. ucast (sectoff r) + reloc_size r \<le> sectsize ndz"
  shows "ndz_reloc_put ndz hdr =
           Inr (0, filter (\<lambda>r. ucast (firstsect hdr) \<le> sector r \<and>
                                sector r < ucast (lastsect hdr)) d)"
proof (cases "relocentries ndz = 0 \<or> ucast (firstsect hdr) > relochi ndz
         \<or> ucast (lastsect hdr) \<le> reloclo ndz")
  case True
  have "filter (\<lambda>r. ucast (firstsect hdr) \<le> sector r \<and> sector r < ucast (lastsect hdr)) d = []"
    using True assms(2,3) by (auto simp: filter_empty_conv)
  with True show ?thesis by (simp add: ndz_reloc_put_def)
next
  case False
  then show ?thesis
    using assms(1,2) reloc_put_loop_filter[OF assms(4), of hdr "[]"]
    by (simp add: ndz_reloc_put_def)
qed

theorem reloc_put_selects_witness:
  "ndz_reloc_put (ex_ndz (Some [ex_reloc 5, ex_reloc 9, ex_reloc 12]) 5 12)
     (ex_hdr COMPRESSED_V2 0 6 13) = Inr (0, [ex_reloc 9, ex_reloc 12])"
proof -
  let ?ndz = "ex_ndz (Some [ex_reloc 5, ex_reloc 9, ex_reloc 12]) 5 12"
  have a: "relocdata ?ndz = Some [ex_reloc 5, ex_reloc 9, ex_reloc 12]"
    and b: "relocentries ?ndz = int (length [ex_reloc 5, ex_reloc 9, ex_reloc 12])"
    and c: "\<forall>r \<in> set [ex_reloc 5, ex_reloc 9, ex_reloc 12].
              reloclo ?ndz \<le> sector r \<and> sector r \<le> relochi ?ndz"
    and d: "\<forall>r \<in> set [ex_reloc 5, ex_reloc 9, ex_reloc 12].
              ucast (sectoff r) + reloc_size r \<le> sectsize ?ndz"
    by (simp_all add: ex_ndz_def ex_reloc_def)
  from reloc_put_selects[OF a b c d, of "ex_hdr COMPRESSED_V2 0 6 13"]
  show ?thesis by (simp add: ex_hdr_def ex_reloc_def)
qed

text \<open>
  On the table with sectors 5, 10, 7 and the chunk range \<open>[6, 8)\<close> the scan goes on
  past the record at sector 10 and emits the one at sector 7; the return value is 0,
  not the number of records emitted.
\<close>

theorem reloc_put_returns_zero_counterexample:
  "ndz_reloc_put (ex_ndz (Some [ex_reloc 5, ex_reloc 10, ex_reloc 7]) 5 10)
     (ex_hdr COMPRESSED_V2 0 6 8) = Inr (0, [ex_reloc 7])
   \<and> (0::int) \<noteq> int (length [ex_reloc 7])"
  by (simp add: ndz_reloc_put_def ex_ndz_def ex_hdr_def ex_reloc_def Let_def)

section \<open>Properties of the image dumper\<close>

lemma dumpchunk_accepts_only:
  "dumpchunk g hdr chunkno checkindex = 0 \<Longrightarrow>
   magic hdr \<in> {COMPRESSED_V1, COMPRESSED_V2, COMPRESSED_V3, COMPRESSED_V5, COMPRESSED_V6}"
  by (auto simp: dumpchunk_def split: if_splits)

lemma quickcheck_exit:
  "quickcheck_flag opts \<Longrightarrow>
   imagedump_main opts copt [file_with_header hdr sz cs] =
     (if magic hdr < COMPRESSED_MAGIC_BASE \<or> magic hdr > COMPRESSED_MAGIC_CURRENT then 1 else 0)"
  by (simp add: imagedump_main_def dumpfile_def file_with_header_def Let_def)

text \<open>
  Claim C5, as the code has it. \<open>dumpchunk\<close> accepts a chunk only when its magic encodes
  version 1, 2, 3, 5 or 6, and rejects version 4. In quickcheck mode, for a file whose
  first chunk is read, the exit status is 0 when the magic encodes version 1, 2, 3 or 5,
  and 1 when the magic is below \<open>COMPRESSED_MAGIC_BASE\<close> or above
  \<open>COMPRESSED_MAGIC_CURRENT\<close>, which is version 5: version 6 is refused there.
\<close>

theorem imagedump_versions:
  "(dumpchunk g hdr chunkno checkindex = 0 \<longrightarrow>
      magic hdr - COMPRESSED_MAGIC_BASE + 1 \<in> {1, 2, 3, 5, 6})
   \<and> (magic hdr = COMPRESSED_V4 \<longrightarrow> dumpchunk g hdr chunkno checkindex = 1)
   \<and> (quickcheck_flag opts \<and> magic hdr - COMPRESSED_MAGIC_BASE + 1 \<in> {1, 2, 3, 5} \<longrightarrow>
        imagedump_main opts copt [file_with_header hdr sz cs] = 0)
   \<and> (quickcheck_flag opts \<and>
        (magic hdr < COMPRESSED_MAGIC_BASE \<or> magic hdr > COMPRESSED_MAGIC_CURRENT) \<longrightarrow>
        imagedump_main opts copt [file_with_header hdr sz cs] = 1)
   \<and> COMPRESSED_V6 > COMPRESSED_MAGIC_CURRENT"
proof -
  have a: "dumpchunk g hdr chunkno checkindex = 0 \<longrightarrow>
      magic hdr - COMPRESSED_MAGIC_BASE + 1 \<in> {1, 2, 3, 5, 6}"
    using dumpchunk_accepts_only[of g hdr chunkno checkindex]
    by (auto simp: COMPRESSED_V1_def COMPRESSED_V2_def COMPRESSED_V3_def COMPRESSED_V5_def
          COMPRESSED_V6_def)
  have b: "magic hdr = COMPRESSED_V4 \<longrightarrow> dumpchunk g hdr chunkno checkindex = 1"
    by (simp add: dumpchunk_def COMPRESSED_V1_def COMPRESSED_V2_def COMPRESSED_V3_def
          COMPRESSED_V4_def COMPRESSED_V5_def COMPRESSED_V6_def COMPRESSED_MAGIC_BASE_def)
  have v: "magic hdr - COMPRESSED_MAGIC_BASE + 1 \<in> {1, 2, 3, 5} \<Longrightarrow>
      magic hdr \<in> {COMPRESSED_V1, COMPRESSED_V2, COMPRESSED_V3, COMPRESSED_V5}"
    by (auto simp: COMPRESSED_V1_def COMPRESSED_V2_def COMPRESSED_V3_def COMPRESSED_V5_def
          COMPRESSED_MAGIC_BASE_def)
  have c: "quickcheck_flag opts \<and> magic hdr - COMPRESSED_MAGIC_BASE + 1 \<in> {1, 2, 3, 5} \<longrightarrow>
        imagedump_main opts copt [file_with_header hdr sz cs] = 0"
  proof (intro impI, elim conjE)
    assume q: "quickcheck_flag opts" and m: "magic hdr - COMPRESSED_MAGIC_BASE + 1 \<in> {1, 2, 3, 5}"
    from v[OF m] have "\<not> (magic hdr < COMPRESSED_MAGIC_BASE \<or> magic hdr > COMPRESSED_MAGIC_CURRENT)"
      by (auto simp: COMPRESSED_V1_def COMPRESSED_V2_def COMPRESSED_V3_def COMPRESSED_V5_def
            COMPRESSED_MAGIC_CURRENT_def COMPRESSED_MAGIC_BASE_def)
    with q show "imagedump_main opts copt [file_with_header hdr sz cs] = 0"
      by (simp add: quickcheck_exit)
  qed
  have d: "quickcheck_flag opts \<and>
        (magic hdr < COMPRESSED_MAGIC_BASE \<or> magic hdr > COMPRESSED_MAGIC_CURRENT) \<longrightarrow>
        imagedump_main opts copt [file_with_header hdr sz cs] = 1"
    by (auto simp: quickcheck_exit)
  have e: "COMPRESSED_V6 > COMPRESSED_MAGIC_CURRENT"
    by (simp add: COMPRESSED_V6_def COMPRESSED_MAGIC_CURRENT_def COMPRESSED_V5_def
          COMPRESSED_MAGIC_BASE_def)
  from a b c d e show ?thesis by blast
qed

theorem imagedump_versions_witness:
  "dumpchunk \<lparr>checksums = False, g_magic = COMPRESSED_V5, chunkcount = 0, g_imageid = [],
              sigtype = 0, enctype = 0\<rparr> (ex_hdr COMPRESSED_V5 0 0 0) 0 True = 0
   \<and> magic (ex_hdr COMPRESSED_V5 0 0 0) - COMPRESSED_MAGIC_BASE + 1 \<in> {1, 2, 3, 5, 6}
   \<and> dumpchunk \<lparr>checksums = False, g_magic = COMPRESSED_V4, chunkcount = 0, g_imageid = [],
              sigtype = 0, enctype = 0\<rparr> (ex_hdr COMPRESSED_V4 0 0 0) 0 True = 1
   \<and> imagedump_main \<lparr>quickcheck_flag = True, ignorev1 = False\<rparr> False
        [file_with_header (ex_hdr COMPRESSED_V5 0 0 0) 1048576 []] = 0
   \<and> imagedump_main \<lparr>quickcheck_flag = True, ignorev1 = False\<rparr> False
        [file_with_header (ex_hdr 0x12345678 0 0 0) 1048576 []] = 1"
proof -
  let ?g = "\<lparr>checksums = False, g_magic = COMPRESSED_V5, chunkcount = 0, g_imageid = [],
              sigtype = 0, enctype = 0\<rparr>"
  let ?g4 = "\<lparr>checksums = False, g_magic = COMPRESSED_V4, chunkcount = 0, g_imageid = [],
              sigtype = 0, enctype = 0\<rparr>"
  let ?o = "\<lparr>quickcheck_flag = True, ignorev1 = False\<rparr>"
  have h1: "dumpchunk ?g (ex_hdr COMPRESSED_V5 0 0 0) 0 True = 0"
    by (simp add: dumpchunk_def dumpchunk_checks_def ex_hdr_def COMPRESSED_V1_def
          COMPRESSED_V2_def COMPRESSED_V3_def COMPRESSED_V5_def COMPRESSED_MAGIC_BASE_def)
  have h2: "magic (ex_hdr COMPRESSED_V4 0 0 0) = COMPRESSED_V4"
    by (simp add: ex_hdr_def)
  have h3: "quickcheck_flag ?o \<and> magic (ex_hdr COMPRESSED_V5 0 0 0) - COMPRESSED_MAGIC_BASE + 1 \<in> {1, 2, 3, 5}"
    by (simp add: ex_hdr_def COMPRESSED_V5_def)
  have h4: "quickcheck_flag ?o \<and> (magic (ex_hdr 0x12345678 0 0 0) < COMPRESSED_MAGIC_BASE
              \<or> magic (ex_hdr 0x12345678 0 0 0) > COMPRESSED_MAGIC_CURRENT)"
    by (simp add: ex_hdr_def COMPRESSED_MAGIC_BASE_def)
  from imagedump_versions[of ?g "ex_hdr COMPRESSED_V5 0 0 0" 0 True ?o False 1048576 "[]"] h1 h3
  have p1: "magic (ex_hdr COMPRESSED_V5 0 0 0) - COMPRESSED_MAGIC_BASE + 1 \<in> {1, 2, 3, 5, 6}"
    and p3: "imagedump_main ?o False [file_with_header (ex_hdr COMPRESSED_V5 0 0 0) 1048576 []] = 0"
    by blast+
  from imagedump_versions[of ?g4 "ex_hdr COMPRESSED_V4 0 0 0" 0 True ?o False 1048576 "[]"] h2
  have p2: "dumpchunk ?g4 (ex_hdr COMPRESSED_V4 0 0 0) 0 True = 1" by blast
  from imagedump_versions[of ?g "ex_hdr 0x12345678 0 0 0" 0 True ?o False 1048576 "[]"] h4
  have p4: "imagedump_main ?o False [file_with_header (ex_hdr 0x12345678 0 0 0) 1048576 []] = 1"
    by blast
  from h1 p1 p2 p3 p4 show ?thesis by blast
qed

text \<open>
  In quickcheck mode a first chunk with the version 6 magic, which \<open>dumpchunk\<close> accepts,
  gives exit status 1.
\<close>

theorem quickcheck_v6_counterexample:
  "imagedump_main \<lparr>quickcheck_flag = True, ignorev1 = False\<rparr> False
     [file_with_header (ex_hdr COMPRESSED_V6 0 0 0) 1048576 []] = 1
   \<and> dumpchunk \<lparr>checksums = False, g_magic = COMPRESSED_V6, chunkcount = 0, g_imageid = [],
                sigtype = 0, enctype = 0\<rparr> (ex_hdr COMPRESSED_V6 0 0 0) 0 True = 0
   \<and> magic (ex_hdr COMPRESSED_V6 0 0 0) - COMPRESSED_MAGIC_BASE + 1 = 6"
  by (simp add: imagedump_main_def dumpfile_def file_with_header_def dumpchunk_def
        dumpchunk_checks_def ex_hdr_def COMPRESSED_V1_def COMPRESSED_V2_def COMPRESSED_V3_def
        COMPRESSED_V5_def COMPRESSED_V6_def COMPRESSED_MAGIC_CURRENT_def
        COMPRESSED_MAGIC_BASE_def CSUM_NONE_def Let_def)

section \<open>Properties of the signature writer\<close>

lemma compensate_starts:
  "compensate off blk rs = Some regs \<Longrightarrow>
   map hr_start regs = map (\<lambda>r. hr_start r - off) rs \<and> length regs = length rs"
  by (induction rs arbitrary: regs) (auto split: if_splits)

lemma narrow_Some_iff:
  "(\<exists>regs32. narrow n rs = Some regs32) = (\<forall>r \<in> set rs. hr_start r \<le> UINT32_MAX)"
  by (induction rs) (auto simp: not_less)

lemma narrow_starts:
  "narrow n rs = Some regs32 \<Longrightarrow> map hr_start regs32 = map hr_start rs"
  by (induction rs arbitrary: regs32) (auto split: if_splits simp: not_less ucast_ucast_u32)

lemma convert_hashinfo_version:
  "hi_version nh = HASH_VERSION \<Longrightarrow>
   hi_version (fst (convert_hashinfo w ivers blk nh)) =
     (if ivers < COMPRESSED_V5 \<and> hi_hashtype nh \<noteq> HASH_TYPE_SHA256 \<and> w_cvt_ok w
         \<and> (\<forall>r \<in> set (regions nh). hr_start r \<le> UINT32_MAX)
      then HASH_VERSION_2 else HASH_VERSION_3)"
  using narrow_Some_iff[of "w_hsize32 w" "regions nh"]
  by (auto simp: convert_hashinfo_def HASH_VERSION_def split: option.splits)

lemma convert_hashinfo_warns:
  "snd (convert_hashinfo w ivers blk nh) =
     (if ivers < COMPRESSED_V5 then
        (if hi_hashtype nh = HASH_TYPE_SHA256 then [Incompatible_hash_type]
         else if \<not> w_cvt_ok w then [Cannot_convert]
         else if \<not> (\<forall>r \<in> set (regions nh). hr_start r \<le> UINT32_MAX)
           then [Start_exceeds_32_bits]
         else [])
      else [])"
  using narrow_Some_iff[of "w_hsize32 w" "regions nh"]
  by (auto simp: convert_hashinfo_def split: option.splits)

lemma convert_hashinfo_starts:
  "map hr_start (regions (fst (convert_hashinfo w ivers blk nh))) = map hr_start (regions nh)"
  by (auto simp: convert_hashinfo_def narrow_starts split: option.splits)

text \<open>
  Claim C6. When the function gets as far as the write (the assertions hold, the name
  is allocated and a file opens) on a signature of the current version, the buffer it
  writes has version 2 exactly when the image version is below \<open>COMPRESSED_V5\<close>, the
  hash type is not SHA256, every partition-relative start fits in 32 bits and the
  conversion buffer is allocated; in every other case it has version 3. One of the
  three warnings is printed exactly when the image version is below \<open>COMPRESSED_V5\<close>
  and the narrowing did not go through.
\<close>

theorem write_hashfile_version:
  assumes "poffset st \<noteq> - 1" and "nhinfo st = Some nh"
    and "compensate (poffset st) (hi_blksize nh) (regions nh) = Some regs"
    and "w_name_ok w" and "w_open_ok w \<or> (w_tmpname_ok w \<and> w_tmpopen_ok w)"
    and "hi_version nh = HASH_VERSION"
  shows "\<exists>rv st' out msgs.
           hashmap_write_hashfile w fname iname ivers st = Inr (rv, st', Some out, msgs) \<and>
           (hi_version out = HASH_VERSION_2) =
             (ivers < COMPRESSED_V5 \<and> hi_hashtype nh \<noteq> HASH_TYPE_SHA256 \<and>
              (\<forall>r \<in> set regs. hr_start r \<le> UINT32_MAX) \<and> w_cvt_ok w) \<and>
           (hi_version out = HASH_VERSION_3) =
             (\<not> (ivers < COMPRESSED_V5 \<and> hi_hashtype nh \<noteq> HASH_TYPE_SHA256 \<and>
                 (\<forall>r \<in> set regs. hr_start r \<le> UINT32_MAX) \<and> w_cvt_ok w)) \<and>
           (Incompatible_hash_type \<in> set msgs \<or> Cannot_convert \<in> set msgs
              \<or> Start_exceeds_32_bits \<in> set msgs) =
             (ivers < COMPRESSED_V5 \<and>
              \<not> (hi_hashtype nh \<noteq> HASH_TYPE_SHA256 \<and>
                 (\<forall>r \<in> set regs. hr_start r \<le> UINT32_MAX) \<and> w_cvt_ok w))"
proof -
  define nh1 where "nh1 = nh\<lparr>regions := regs\<rparr>"
  define cv where "cv = convert_hashinfo w ivers (hashblksize st) nh1"
  have v1: "hi_version nh1 = HASH_VERSION" and t1: "hi_hashtype nh1 = hi_hashtype nh"
    and r1: "regions nh1 = regs"
    using assms(6) by (simp_all add: nh1_def)
  have ver: "hi_version (fst cv) =
     (if ivers < COMPRESSED_V5 \<and> hi_hashtype nh \<noteq> HASH_TYPE_SHA256 \<and> w_cvt_ok w
         \<and> (\<forall>r \<in> set regs. hr_start r \<le> UINT32_MAX)
      then HASH_VERSION_2 else HASH_VERSION_3)"
    unfolding cv_def using convert_hashinfo_version[OF v1, of w ivers "hashblksize st"]
    by (simp add: t1 r1)
  have warn: "snd cv =
     (if ivers < COMPRESSED_V5 then
        (if hi_hashtype nh = HASH_TYPE_SHA256 then [Incompatible_hash_type]
         else if \<not> w_cvt_ok w then [Cannot_convert]
         else if \<not> (\<forall>r \<in> set regs. hr_start r \<le> UINT32_MAX)
           then [Start_exceeds_32_bits]
         else [])
      else [])"
    unfolding cv_def using convert_hashinfo_warns[of w ivers "hashblksize st" nh1]
    by (simp add: t1 r1)
  obtain rv st' msgs where
    run: "hashmap_write_hashfile w fname iname ivers st = Inr (rv, st', Some (fst cv), msgs)"
    and msgs: "Incompatible_hash_type \<in> set msgs \<or> Cannot_convert \<in> set msgs
                 \<or> Start_exceeds_32_bits \<in> set msgs
               \<longleftrightarrow> snd cv \<noteq> []"
  proof (cases "w_write_ok w")
    case True
    show ?thesis
      by (rule that[of 0 "st\<lparr>nhinfo := Some (fst cv)\<rparr>"
            "(if w_open_ok w then [] else [Perror]) @ snd cv
             @ (if iname \<noteq> ''-'' \<and> \<not> w_mtime_ok w then [Could_not_set_mtime] else [])
             @ [Signature_written]"])
         (use assms True warn in
           \<open>auto simp: hashmap_write_hashfile_def Let_def nh1_def[symmetric] cv_def[symmetric]
              split: prod.splits if_splits\<close>)
  next
    case False
    show ?thesis
      by (rule that[of "- 1" "st\<lparr>nhinfo := Some (fst cv)\<rparr>"
            "(if w_open_ok w then [] else [Perror]) @ snd cv @ [Incomplete_write]"])
         (use assms False warn in
           \<open>auto simp: hashmap_write_hashfile_def Let_def nh1_def[symmetric] cv_def[symmetric]
              split: prod.splits if_splits\<close>)
  qed
  have v23: "HASH_VERSION_2 \<noteq> HASH_VERSION_3"
    by (simp add: HASH_VERSION_2_def HASH_VERSION_3_def)
  show ?thesis
    apply (rule exI[of _ rv], rule exI[of _ st'], rule exI[of _ "fst cv"], rule exI[of _ msgs])
    using run msgs ver warn v23 by auto
qed

theorem write_hashfile_version_witness:
  "hashmap_write_hashfile (ex_wenv True) ''img.sig'' ''img'' COMPRESSED_V3
     (ex_hstate (Some (ex_hinfo HASH_TYPE_SHA1 [ex_hreg 100 8 []])) 128 63)
   = Inr (0, ex_hstate (Some \<lparr>hi_version = HASH_VERSION_2, hi_hashtype = HASH_TYPE_SHA1,
                               hi_blksize = 128, regions = [ex_hreg 37 8 []]\<rparr>) 128 63,
          Some \<lparr>hi_version = HASH_VERSION_2, hi_hashtype = HASH_TYPE_SHA1,
                hi_blksize = 128, regions = [ex_hreg 37 8 []]\<rparr>,
          [Signature_written])"
proof -
  let ?nh = "ex_hinfo HASH_TYPE_SHA1 [ex_hreg 100 8 []]"
  let ?st = "ex_hstate (Some ?nh) 128 63"
  have a: "poffset ?st \<noteq> - 1" and b: "nhinfo ?st = Some ?nh"
    and c: "compensate (poffset ?st) (hi_blksize ?nh) (regions ?nh) = Some [ex_hreg 37 8 []]"
    and d: "w_name_ok (ex_wenv True)"
    and e: "w_open_ok (ex_wenv True) \<or> (w_tmpname_ok (ex_wenv True) \<and> w_tmpopen_ok (ex_wenv True))"
    and f: "hi_version ?nh = HASH_VERSION"
    by (simp_all add: ex_hstate_def ex_hinfo_def ex_hreg_def ex_wenv_def)
  from write_hashfile_version[OF a b c d e f, of "''img.sig''" "''img''" COMPRESSED_V3]
  obtain rv st' out msgs where
    run: "hashmap_write_hashfile (ex_wenv True) ''img.sig'' ''img'' COMPRESSED_V3 ?st
            = Inr (rv, st', Some out, msgs)"
    and v: "(hi_version out = HASH_VERSION_2) =
             (COMPRESSED_V3 < COMPRESSED_V5 \<and> hi_hashtype ?nh \<noteq> HASH_TYPE_SHA256 \<and>
              (\<forall>r \<in> set [ex_hreg 37 8 []]. hr_start r \<le> UINT32_MAX) \<and> w_cvt_ok (ex_wenv True))"
    by blast
  have "hi_version out = HASH_VERSION_2"
    using v by (simp add: ex_hinfo_def ex_hreg_def ex_wenv_def COMPRESSED_V3_def
          COMPRESSED_V5_def COMPRESSED_MAGIC_BASE_def UINT32_MAX_def)
  moreover have "hashmap_write_hashfile (ex_wenv True) ''img.sig'' ''img'' COMPRESSED_V3 ?st
    = Inr (0, ex_hstate (Some \<lparr>hi_version = HASH_VERSION_2, hi_hashtype = HASH_TYPE_SHA1,
                               hi_blksize = 128, regions = [ex_hreg 37 8 []]\<rparr>) 128 63,
          Some \<lparr>hi_version = HASH_VERSION_2, hi_hashtype = HASH_TYPE_SHA1,
                hi_blksize = 128, regions = [ex_hreg 37 8 []]\<rparr>,
          [Signature_written])"
    by (simp add: hashmap_write_hashfile_def convert_hashinfo_def ex_hstate_def ex_hinfo_def
          ex_hreg_def ex_wenv_def COMPRESSED_V3_def COMPRESSED_V5_def COMPRESSED_MAGIC_BASE_def
          UINT32_MAX_def Let_def)
  ultimately show ?thesis using run by simp
qed

lemma map_sub_eq_iff:
  "(map (\<lambda>r. hr_start r - off) rs = map hr_start rs) = (off = 0 \<or> rs = [])"
  by (cases rs) auto

text \<open>
  Claim C7, as the code has it. Whenever \<open>hashmap_write_hashfile\<close> returns from a call
  with a signature in memory, every region's in-memory start is its start before the
  call minus \<open>poffset\<close>: the starts are left relative to the partition, nothing is added
  back, and they equal their values before the call only if \<open>poffset\<close> is 0 or there is
  no region.
\<close>

theorem write_hashfile_starts_relative:
  assumes "nhinfo st = Some nh"
    and "hashmap_write_hashfile w fname iname ivers st = Inr (rv, st', out, msgs)"
  shows "\<exists>nh'. nhinfo st' = Some nh' \<and>
           map hr_start (regions nh') = map (\<lambda>r. hr_start r - poffset st) (regions nh) \<and>
           (map hr_start (regions nh') = map hr_start (regions nh))
             = (poffset st = 0 \<or> regions nh = [])"
proof -
  from assms obtain regs where
    c: "compensate (poffset st) (hi_blksize nh) (regions nh) = Some regs"
    by (auto simp: hashmap_write_hashfile_def split: if_splits option.splits)
  define nh1 where "nh1 = nh\<lparr>regions := regs\<rparr>"
  define cv where "cv = convert_hashinfo w ivers (hashblksize st) nh1"
  have s1: "map hr_start (regions nh1) = map (\<lambda>r. hr_start r - poffset st) (regions nh)"
    using compensate_starts[OF c] by (simp add: nh1_def)
  have s2: "map hr_start (regions (fst cv)) = map (\<lambda>r. hr_start r - poffset st) (regions nh)"
    unfolding cv_def convert_hashinfo_starts by (rule s1)
  have "nhinfo st' = Some nh1 \<or> nhinfo st' = Some (fst cv)"
    using assms c
    by (auto simp: hashmap_write_hashfile_def Let_def nh1_def[symmetric] cv_def[symmetric]
          split: if_splits prod.splits)
  then obtain nh' where n: "nhinfo st' = Some nh'"
    and s: "map hr_start (regions nh') = map (\<lambda>r. hr_start r - poffset st) (regions nh)"
    using s1 s2 by auto
  show ?thesis
    using n s map_sub_eq_iff[of "poffset st" "regions nh"] by simp
qed

theorem write_hashfile_starts_relative_witness:
  "nhinfo (ex_hstate (Some (ex_hinfo HASH_TYPE_SHA1 [ex_hreg 37 8 []])) 128 63)
     = Some (ex_hinfo HASH_TYPE_SHA1 [ex_hreg 37 8 []])
   \<and> map hr_start (regions (ex_hinfo HASH_TYPE_SHA1 [ex_hreg 37 8 []]))
     = map (\<lambda>r. hr_start r - 63) (regions (ex_hinfo HASH_TYPE_SHA1 [ex_hreg 100 8 []]))"
proof -
  let ?nh = "ex_hinfo HASH_TYPE_SHA1 [ex_hreg 100 8 []]"
  let ?st = "ex_hstate (Some ?nh) 128 63"
  let ?st' = "ex_hstate (Some (ex_hinfo HASH_TYPE_SHA1 [ex_hreg 37 8 []])) 128 63"
  have a: "nhinfo ?st = Some ?nh" by (simp add: ex_hstate_def)
  have b: "hashmap_write_hashfile (ex_wenv True) ''img.sig'' ''img'' COMPRESSED_V5 ?st
    = Inr (0, ?st', Some (ex_hinfo HASH_TYPE_SHA1 [ex_hreg 37 8 []]), [Signature_written])"
    by (simp add: hashmap_write_hashfile_def convert_hashinfo_def ex_hstate_def ex_hinfo_def
          ex_hreg_def ex_wenv_def COMPRESSED_V5_def COMPRESSED_MAGIC_BASE_def Let_def)
  from write_hashfile_starts_relative[OF a b]
  obtain nh' where "nhinfo ?st' = Some nh'"
    and "map hr_start (regions nh') = map (\<lambda>r. hr_start r - poffset ?st) (regions ?nh)"
    by blast
  then show ?thesis by (simp add: ex_hstate_def)
qed

text \<open>
  With \<open>poffset\<close> 63 and one region starting at sector 100, the region starts at 37 in
  memory after the call, not at 100.
\<close>

theorem write_hashfile_no_restore_counterexample:
  "hashmap_write_hashfile (ex_wenv True) ''img.sig'' ''img'' COMPRESSED_V5
     (ex_hstate (Some (ex_hinfo HASH_TYPE_SHA1 [ex_hreg 100 8 []])) 128 63)
   = Inr (0, ex_hstate (Some (ex_hinfo HASH_TYPE_SHA1 [ex_hreg 37 8 []])) 128 63,
          Some (ex_hinfo HASH_TYPE_SHA1 [ex_hreg 37 8 []]), [Signature_written])
   \<and> hr_start (ex_hreg 37 8 []) \<noteq> hr_start (ex_hreg 100 8 [])"
  by (simp add: hashmap_write_hashfile_def convert_hashinfo_def ex_hstate_def ex_hinfo_def
        ex_hreg_def ex_wenv_def COMPRESSED_V5_def COMPRESSED_MAGIC_BASE_def Let_def)

section \<open>Properties of the hash chunking\<close>

lemma hash_range_regions:
  "hash_range e s z st = Done h st' \<Longrightarrow> nhinfo st' = nhinfo st \<and> hashblksize st' = hashblksize st"
  by (auto simp: hash_range_def split: if_splits option.splits prod.splits)

lemma addhash_regions:
  "addhash e s z h st = Done u st' \<Longrightarrow>
   nh_regions st' = nh_regions st @ [\<lparr>hr_start = s, hr_size = z, hr_chunkno = 0, hr_hash = h\<rparr>]
   \<and> hashblksize st' = hashblksize st"
  by (auto simp: addhash_def nh_regions_def Let_def split: if_splits option.splits)

lemma add_to_hashmap_loop_aligned:
  "hashblksize st \<noteq> 0 \<Longrightarrow> unat rstart + unat rsize < 2 ^ 64 \<Longrightarrow>
   \<exists>r. add_to_hashmap_loop e 0 rstart rsize rhash st = Some r \<and>
       (\<forall>u st'. r = Done u st' \<longrightarrow>
          (\<exists>new. nh_regions st' = nh_regions st @ new \<and>
                 map extent new = full_pieces (unat (hashblksize st)) (unat rstart) (unat rsize)))"
proof (induction "unat rsize" arbitrary: rstart rsize st rule: less_induct)
  case less
  show ?case
  proof (cases "rsize = 0")
    case True
    then show ?thesis
      by (subst add_to_hashmap_loop.simps) (simp add: full_pieces.simps)
  next
    case False
    define blk where "blk = hashblksize st"
    define hsize where "hsize = (if rsize > blk then blk else rsize)"
    have hs: "unat hsize = min (unat blk) (unat rsize)"
      by (auto simp: hsize_def word_less_nat_alt)
    have hpos: "0 < unat hsize" "unat hsize \<le> unat rsize"
      using False less.prems(1) hs by (auto simp: blk_def unat_gt_0 min_def)
    have rs': "unat (rsize - hsize) = unat rsize - unat hsize"
      using hpos by (simp add: unat_sub word_le_nat_alt)
    have st': "unat (rstart + ucast hsize) = unat rstart + unat hsize"
      using less.prems(2) hpos unat_lt64[of rstart]
      by (simp add: unat_word_ariths unat_ucast_up)
    have unf: "add_to_hashmap_loop e 0 rstart rsize rhash st =
       obind (Some (case rhash of None \<Rightarrow> hash_range e rstart hsize st | Some h \<Rightarrow> Done h st))
         (\<lambda>h st1. obind (Some (addhash e rstart hsize h st1))
            (\<lambda>u st2. add_to_hashmap_loop e 0 (rstart + ucast hsize) (rsize - hsize) rhash st2))"
      using False
      by (subst add_to_hashmap_loop.simps) (simp add: hsize_def blk_def word_neq_0_conv Let_def cong: option.case_cong)
    show ?thesis
    proof (cases "case rhash of None \<Rightarrow> hash_range e rstart hsize st | Some h \<Rightarrow> Done h st")
      case (Abort a)
      then show ?thesis unfolding unf by (simp add: obind_def)
    next
      case (Failed s)
      then show ?thesis unfolding unf by (simp add: obind_def)
    next
      case (Done h st1)
      have k1: "nhinfo st1 = nhinfo st" "hashblksize st1 = hashblksize st"
        using Done hash_range_regions[of e rstart hsize st h st1]
        by (auto split: option.splits)
      show ?thesis
      proof (cases "addhash e rstart hsize h st1")
        case (Abort a)
        then show ?thesis unfolding unf using Done by (simp add: obind_def)
      next
        case (Failed s)
        then show ?thesis unfolding unf using Done by (simp add: obind_def)
      next
        case D2: (Done u st2)
        from addhash_regions[OF D2]
        have k2: "nh_regions st2 = nh_regions st1 @ [\<lparr>hr_start = rstart, hr_size = hsize, hr_chunkno = 0, hr_hash = h\<rparr>]"
          "hashblksize st2 = hashblksize st1" by simp_all
        have lt: "unat (rsize - hsize) < unat rsize" using rs' hpos by simp
        have b2: "hashblksize st2 \<noteq> 0" using k2 k1 less.prems(1) by simp
        have nw: "unat (rstart + ucast hsize) + unat (rsize - hsize) < 2 ^ 64"
          using st' rs' hpos less.prems(2) by simp
        from less.hyps[OF lt b2 nw]
        obtain r where r: "add_to_hashmap_loop e 0 (rstart + ucast hsize) (rsize - hsize) rhash st2 = Some r"
          and rr: "\<forall>u st'. r = Done u st' \<longrightarrow>
          (\<exists>new. nh_regions st' = nh_regions st2 @ new \<and>
                 map extent new = full_pieces (unat (hashblksize st2)) (unat (rstart + ucast hsize)) (unat (rsize - hsize)))"
          by blast
        have fp: "full_pieces (unat blk) (unat rstart) (unat rsize) =
            (unat rstart, unat hsize) # full_pieces (unat blk) (unat rstart + unat hsize) (unat rsize - unat hsize)"
          using False less.prems(1) hs
          by (subst full_pieces.simps) (simp add: blk_def unat_eq_0)
        have "add_to_hashmap_loop e 0 rstart rsize rhash st = Some r"
          unfolding unf using Done D2 r by (simp add: obind_def)
        moreover have "\<forall>u st'. r = Done u st' \<longrightarrow>
          (\<exists>new. nh_regions st' = nh_regions st @ new \<and>
                 map extent new = full_pieces (unat (hashblksize st)) (unat rstart) (unat rsize))"
        proof (intro allI impI)
          fix u st' assume "r = Done u st'"
          with rr obtain new where n: "nh_regions st' = nh_regions st2 @ new"
            "map extent new = full_pieces (unat (hashblksize st2)) (unat (rstart + ucast hsize)) (unat (rsize - hsize))"
            by blast
          have "nh_regions st1 = nh_regions st" using k1 by (simp add: nh_regions_def)
          then have "nh_regions st' = nh_regions st @ (\<lparr>hr_start = rstart, hr_size = hsize, hr_chunkno = 0, hr_hash = h\<rparr> # new)"
            using n k2 by simp
          moreover have "map extent (\<lparr>hr_start = rstart, hr_size = hsize, hr_chunkno = 0, hr_hash = h\<rparr> # new)
              = full_pieces (unat (hashblksize st)) (unat rstart) (unat rsize)"
            using n(2) fp k1 k2 st' rs' by (simp add: extent_def blk_def)
          ultimately show "\<exists>new. nh_regions st' = nh_regions st @ new \<and>
                 map extent new = full_pieces (unat (hashblksize st)) (unat rstart) (unat rsize)"
            by blast
        qed
        ultimately show ?thesis by blast
      qed
    qed
  qed
qed

lemma add_to_hashmap_loop_offset:
  assumes "hashblksize st \<noteq> 0" and "unat rstart + unat rsize < 2 ^ 64"
    and "offset < hashblksize st"
  defines "ps \<equiv> (if rsize = 0 then []
                    else (unat rstart, min (unat (hashblksize st) - unat offset) (unat rsize))
                         # full_pieces (unat (hashblksize st))
                             (unat rstart + min (unat (hashblksize st) - unat offset) (unat rsize))
                             (unat rsize - min (unat (hashblksize st) - unat offset) (unat rsize)))"
  shows "\<exists>r. add_to_hashmap_loop e offset rstart rsize rhash st = Some r \<and>
       (\<forall>u st'. r = Done u st' \<longrightarrow>
          (\<exists>new. nh_regions st' = nh_regions st @ new \<and> map extent new = ps))"
proof (cases "rsize = 0")
  case True
  then show ?thesis
    by (subst add_to_hashmap_loop.simps) (simp add: ps_def)
next
  case False
  define blk where "blk = hashblksize st"
  define hsize where "hsize =
              (if offset \<noteq> 0 then
                 (let hsize = blk - offset in if hsize > rsize then rsize else hsize)
               else if rsize > blk then blk
               else rsize)"
  have ole: "offset \<le> blk" using assms(3) by (simp add: blk_def)
  have ob: "unat (blk - offset) = unat blk - unat offset" "0 < unat blk - unat offset"
    using unat_sub[OF ole] assms(3) by (simp_all add: blk_def word_less_nat_alt)
  have hs: "unat hsize = min (unat blk - unat offset) (unat rsize)"
    using ob by (auto simp: hsize_def Let_def word_less_nat_alt unat_eq_0)
  have hpos: "0 < unat hsize" "unat hsize \<le> unat rsize"
    using False ob hs by (auto simp: unat_gt_0 min_def)
  have rs': "unat (rsize - hsize) = unat rsize - unat hsize"
    using hpos by (simp add: unat_sub word_le_nat_alt)
  have st': "unat (rstart + ucast hsize) = unat rstart + unat hsize"
    using assms(2) hpos unat_lt64[of rstart]
    by (simp add: unat_word_ariths unat_ucast_up)
  have unf: "add_to_hashmap_loop e offset rstart rsize rhash st =
     obind (Some (case rhash of None \<Rightarrow> hash_range e rstart hsize st | Some h \<Rightarrow> Done h st))
       (\<lambda>h st1. obind (Some (addhash e rstart hsize h st1))
          (\<lambda>u st2. add_to_hashmap_loop e 0 (rstart + ucast hsize) (rsize - hsize) rhash st2))"
    using False
    by (subst add_to_hashmap_loop.simps)
       (simp add: hsize_def blk_def word_neq_0_conv Let_def cong: option.case_cong)
  show ?thesis
  proof (cases "case rhash of None \<Rightarrow> hash_range e rstart hsize st | Some h \<Rightarrow> Done h st")
    case (Abort a)
    then show ?thesis unfolding unf by (simp add: obind_def)
  next
    case (Failed s)
    then show ?thesis unfolding unf by (simp add: obind_def)
  next
    case (Done h st1)
    have k1: "nhinfo st1 = nhinfo st" "hashblksize st1 = hashblksize st"
      using Done hash_range_regions[of e rstart hsize st h st1]
      by (auto split: option.splits)
    show ?thesis
    proof (cases "addhash e rstart hsize h st1")
      case (Abort a)
      then show ?thesis unfolding unf using Done by (simp add: obind_def)
    next
      case (Failed s)
      then show ?thesis unfolding unf using Done by (simp add: obind_def)
    next
      case D2: (Done u st2)
      from addhash_regions[OF D2]
      have k2: "nh_regions st2 = nh_regions st1 @ [\<lparr>hr_start = rstart, hr_size = hsize, hr_chunkno = 0, hr_hash = h\<rparr>]"
        "hashblksize st2 = hashblksize st1" by simp_all
      have b2: "hashblksize st2 \<noteq> 0" using k2 k1 assms(1) by simp
      have nw: "unat (rstart + ucast hsize) + unat (rsize - hsize) < 2 ^ 64"
        using st' rs' hpos assms(2) by simp
      from add_to_hashmap_loop_aligned[OF b2 nw, of e rhash]
      obtain r where r: "add_to_hashmap_loop e 0 (rstart + ucast hsize) (rsize - hsize) rhash st2 = Some r"
        and rr: "\<forall>u st'. r = Done u st' \<longrightarrow>
        (\<exists>new. nh_regions st' = nh_regions st2 @ new \<and>
               map extent new = full_pieces (unat (hashblksize st2)) (unat (rstart + ucast hsize)) (unat (rsize - hsize)))"
        by blast
      have "add_to_hashmap_loop e offset rstart rsize rhash st = Some r"
        unfolding unf using Done D2 r by (simp add: obind_def)
      moreover have "\<forall>u st'. r = Done u st' \<longrightarrow>
        (\<exists>new. nh_regions st' = nh_regions st @ new \<and> map extent new = ps)"
      proof (intro allI impI)
        fix u st' assume "r = Done u st'"
        with rr obtain new where n: "nh_regions st' = nh_regions st2 @ new"
          "map extent new = full_pieces (unat (hashblksize st2)) (unat (rstart + ucast hsize)) (unat (rsize - hsize))"
          by blast
        have "nh_regions st1 = nh_regions st" using k1 by (simp add: nh_regions_def)
        then have "nh_regions st' = nh_regions st @ (\<lparr>hr_start = rstart, hr_size = hsize, hr_chunkno = 0, hr_hash = h\<rparr> # new)"
          using n k2 by simp
        moreover have "map extent (\<lparr>hr_start = rstart, hr_size = hsize, hr_chunkno = 0, hr_hash = h\<rparr> # new) = ps"
          using n(2) k1 k2 st' rs' hs False by (simp add: extent_def blk_def ps_def)
        ultimately show "\<exists>new. nh_regions st' = nh_regions st @ new \<and> map extent new = ps"
          by blast
      qed
      ultimately show ?thesis by blast
    qed
  qed
qed

lemma offset_value:
  assumes "blk \<noteq> (0 :: u32)" and "off \<le> (rstart :: u64)"
  shows "unat (ucast ((rstart - off) mod ucast blk) :: u32) = (unat rstart - unat off) mod unat blk"
    and "(ucast ((rstart - off) mod ucast blk) :: u32) < blk"
proof -
  have b: "0 < unat blk" using assms(1) by (simp add: unat_gt_0)
  have m: "unat ((rstart - off) mod (ucast blk :: u64)) = (unat rstart - unat off) mod unat blk"
    using assms(2) by (simp add: unat_mod unat_ucast_up unat_sub)
  have lt: "(unat rstart - unat off) mod unat blk < unat blk" using b by simp
  then have "(unat rstart - unat off) mod unat blk < 4294967296"
    using unat_lt32[of blk] by linarith
  then show v: "unat (ucast ((rstart - off) mod ucast blk) :: u32) = (unat rstart - unat off) mod unat blk"
    by (simp add: unat_ucast_down m)
  show "(ucast ((rstart - off) mod ucast blk) :: u32) < blk"
    using v lt by (simp add: word_less_nat_alt)
qed

lemma add_to_hashmap_pieces:
  assumes "hashblksize st \<noteq> 0" and "poffset st \<noteq> - 1" and "poffset st \<le> rstart"
    and "unat rstart + unat rsize < 2 ^ 64"
  shows "\<exists>r. add_to_hashmap e rstart rsize rhash st = Some r \<and>
       (\<forall>u st'. r = Done u st' \<longrightarrow>
          (\<exists>new. nh_regions st' = nh_regions st @ new \<and>
                 map extent new = spec_pieces (unat (hashblksize st)) (unat (poffset st))
                                    (unat rstart) (unat rsize)))"
proof -
  define offset :: u32 where "offset = ucast ((rstart - poffset st) mod ucast (hashblksize st))"
  have ov: "unat offset = (unat rstart - unat (poffset st)) mod unat (hashblksize st)"
    and ol: "offset < hashblksize st"
    using offset_value[OF assms(1,3)] by (simp_all add: offset_def)
  have eq: "add_to_hashmap e rstart rsize rhash st = add_to_hashmap_loop e offset rstart rsize rhash st"
    using assms(1,2) by (simp add: add_to_hashmap_def offset_def)
  have sp: "spec_pieces (unat (hashblksize st)) (unat (poffset st)) (unat rstart) (unat rsize) =
     (if rsize = 0 then []
      else (unat rstart, min (unat (hashblksize st) - unat offset) (unat rsize))
           # full_pieces (unat (hashblksize st))
               (unat rstart + min (unat (hashblksize st) - unat offset) (unat rsize))
               (unat rsize - min (unat (hashblksize st) - unat offset) (unat rsize)))"
    by (simp add: spec_pieces_def ov Let_def unat_eq_0)
  show ?thesis
    unfolding eq sp using add_to_hashmap_loop_offset[OF assms(1,4) ol] by simp
qed

lemma full_pieces_tiles: "0 < blk \<Longrightarrow> tiles s n (full_pieces blk s n)"
proof (induction blk s n rule: full_pieces.induct)
  case (1 blk start n)
  then show ?case
    by (subst full_pieces.simps) (auto simp: min_def)
qed

lemma spec_pieces_tiles: "0 < blk \<Longrightarrow> tiles rstart rsize (spec_pieces blk ssect rstart rsize)"
proof -
  assume b: "0 < blk"
  then have "0 < blk - (rstart - ssect) mod blk" by simp
  then show ?thesis
    using full_pieces_tiles[OF b] by (auto simp: spec_pieces_def Let_def min_def)
qed

lemma tiles_cover: "tiles s n ps \<Longrightarrow> (\<Union>(a, k) \<in> set ps. {a ..< a + k}) = {s ..< s + n}"
proof (induction ps arbitrary: s n)
  case Nil
  then show ?case by simp
next
  case (Cons p ps)
  obtain a k where p: "p = (a, k)" by (cases p)
  from Cons.prems p have t: "a = s" "0 < k" "k \<le> n" "tiles (s + k) (n - k) ps" by simp_all
  from Cons.IH[OF t(4)] have "(\<Union>(a, k) \<in> set ps. {a ..< a + k}) = {s + k ..< s + k + (n - k)}" .
  then have "(\<Union>(a, k) \<in> set (p # ps). {a ..< a + k}) = {s ..< s + k} \<union> {s + k ..< s + n}"
    using p t by simp
  also have "\<dots> = {s ..< s + n}" using t by auto
  finally show ?case .
qed

lemma full_pieces_sizes:
  "0 < blk \<Longrightarrow> (\<forall>p \<in> set (butlast (full_pieces blk s n)). snd p = blk)
     \<and> (\<forall>p \<in> set (full_pieces blk s n). snd p \<le> blk)"
proof (induction blk s n rule: full_pieces.induct)
  case (1 blk start n)
  show ?case
  proof (cases "n = 0")
    case True
    then show ?thesis by (subst (1 2) full_pieces.simps) simp
  next
    case False
    show ?thesis
    proof (cases "n \<le> blk")
      case True
      then have "full_pieces blk start n = [(start, n)]"
        using False 1(2) by (subst full_pieces.simps, subst full_pieces.simps) (simp add: min_def)
      then show ?thesis using True by simp
    next
      case F2: False
      have e: "full_pieces blk start n = (start, blk) # full_pieces blk (start + blk) (n - blk)"
        using False F2 1(2) by (subst full_pieces.simps) (simp add: min_def)
      have ih: "(\<forall>p \<in> set (butlast (full_pieces blk (start + blk) (n - blk))). snd p = blk)
     \<and> (\<forall>p \<in> set (full_pieces blk (start + blk) (n - blk)). snd p \<le> blk)"
        using 1(1)[of] False F2 1(2) by (simp add: min_def)
      show ?thesis unfolding e using ih by auto
    qed
  qed
qed

text \<open>
  Claim C3. With a non-zero block size, a range that starts at or above the partition
  base and does not wrap around, \<open>add_to_hashmap\<close> without a precomputed hash returns,
  and when it succeeds the entries it has appended are the pieces of the spec: the first
  of size \<open>min (hashblksize - offset) rsize\<close> with
  \<open>offset = (rstart - ssect) mod hashblksize\<close>, then full blocks, then the remainder.
  The pieces tile \<open>[rstart, rstart + rsize)\<close>: they are consecutive, and their union is
  that interval.
\<close>

theorem add_to_hashmap_splits:
  assumes "hashblksize st \<noteq> 0" and "poffset st \<noteq> - 1" and "poffset st \<le> rstart"
    and "unat rstart + unat rsize < 2 ^ 64"
  shows "\<exists>r. add_to_hashmap e rstart rsize None st = Some r \<and>
       (\<forall>u st'. r = Done u st' \<longrightarrow>
          (\<exists>new. nh_regions st' = nh_regions st @ new \<and>
                 map extent new = spec_pieces (unat (hashblksize st)) (unat (poffset st))
                                    (unat rstart) (unat rsize))) \<and>
       tiles (unat rstart) (unat rsize)
         (spec_pieces (unat (hashblksize st)) (unat (poffset st)) (unat rstart) (unat rsize)) \<and>
       (\<Union>(a, k) \<in> set (spec_pieces (unat (hashblksize st)) (unat (poffset st))
                            (unat rstart) (unat rsize)). {a ..< a + k})
         = {unat rstart ..< unat rstart + unat rsize} \<and>
       (\<forall>p \<in> set (butlast (tl (spec_pieces (unat (hashblksize st)) (unat (poffset st))
                                  (unat rstart) (unat rsize)))). snd p = unat (hashblksize st))"
proof -
  let ?ps = "spec_pieces (unat (hashblksize st)) (unat (poffset st)) (unat rstart) (unat rsize)"
  have b: "0 < unat (hashblksize st)" using assms(1) by (simp add: unat_gt_0)
  have t: "tiles (unat rstart) (unat rsize) ?ps" by (rule spec_pieces_tiles[OF b])
  have c: "(\<Union>(a, k) \<in> set ?ps. {a ..< a + k}) = {unat rstart ..< unat rstart + unat rsize}"
    by (rule tiles_cover[OF t])
  have f: "\<forall>p \<in> set (butlast (tl ?ps)). snd p = unat (hashblksize st)"
    using full_pieces_sizes[OF b] by (simp add: spec_pieces_def Let_def)
  from add_to_hashmap_pieces[OF assms, of e None] t c f show ?thesis by blast
qed

theorem add_to_hashmap_splits_witness:
  "add_to_hashmap (ex_env (\<lambda>n. True) (\<lambda>s n. Some [])) 100 200 None (ex_hstate None 128 0)
     = Some (Done () ((ex_hstate (Some \<lparr>hi_version = 0, hi_hashtype = HASH_TYPE_other 0, hi_blksize = 0,
          regions = [ex_hreg 100 28 [], ex_hreg 128 128 [], ex_hreg 256 44 []]\<rparr>) 128 0)\<lparr>nalloc := 2\<rparr>))
   \<and> spec_pieces 128 0 100 200 = [(100, 28), (128, 128), (256, 44)]"
proof -
  let ?e = "ex_env (\<lambda>n. True) (\<lambda>s n. Some [])"
  let ?st = "ex_hstate None 128 0"
  have a: "hashblksize ?st \<noteq> 0" and b: "poffset ?st \<noteq> - 1" and c: "poffset ?st \<le> 100"
    and d: "unat (100 :: u64) + unat (200 :: u32) < 2 ^ 64"
    by (simp_all add: ex_hstate_def)
  have run: "add_to_hashmap ?e 100 200 None ?st
     = Some (Done () ((ex_hstate (Some \<lparr>hi_version = 0, hi_hashtype = HASH_TYPE_other 0, hi_blksize = 0,
          regions = [ex_hreg 100 28 [], ex_hreg 128 128 [], ex_hreg 256 44 []]\<rparr>) 128 0)\<lparr>nalloc := 2\<rparr>))"
    by (simp add: add_to_hashmap_def add_to_hashmap_loop.simps obind_def hash_range_def
          addhash_def ex_env_def ex_hstate_def ex_hreg_def REGPERBLK_def Let_def)
  from add_to_hashmap_splits[OF a b c d, of ?e] run
  have "\<exists>new. nh_regions ((ex_hstate (Some \<lparr>hi_version = 0, hi_hashtype = HASH_TYPE_other 0, hi_blksize = 0,
          regions = [ex_hreg 100 28 [], ex_hreg 128 128 [], ex_hreg 256 44 []]\<rparr>) 128 0)\<lparr>nalloc := 2\<rparr>)
       = nh_regions ?st @ new \<and>
       map extent new = spec_pieces (unat (hashblksize ?st)) (unat (poffset ?st)) (unat (100 :: u64)) (unat (200 :: u32))"
    by simp
  then have "spec_pieces 128 0 100 200 = [(100, 28), (128, 128), (256, 44)]"
    by (simp add: nh_regions_def ex_hstate_def ex_hreg_def extent_def)
  with run show ?thesis by simp
qed

section \<open>The delta walk\<close>

subsection \<open>Sequencing, paths on the heap and hashing\<close>

text \<open>
  Rules for \<open>ensures\<close> over \<open>obind\<close>, paths under heap updates, and the fact that hashing
  and the new signature leave the range lists and the fixed part alone.
\<close>

lemma ensures_simps [simp]:
  "ensures None D F = True"
  "ensures (Some (Abort a)) D F = True"
  "ensures (Some (Failed s)) D F = F s"
  "ensures (Some (Done v s)) D F = D v s"
  by (simp_all add: ensures_def)

lemma obind_simps [simp]:
  "obind None f = None"
  "obind (Some (Abort a)) f = Some (Abort a)"
  "obind (Some (Failed s)) f = Some (Failed s)"
  "obind (Some (Done v s)) f = f v s"
  by (simp_all add: obind_def)

lemma ensures_obind:
  assumes "ensures m D1 F" and "\<And>v s. D1 v s \<Longrightarrow> ensures (f v s) D F"
  shows "ensures (obind m f) D F"
proof (cases m)
  case None
  then show ?thesis by simp
next
  case (Some r)
  then show ?thesis using assms by (cases r) auto
qed

lemma ensures_weaken:
  assumes "ensures m D F" and "\<And>v s. D v s \<Longrightarrow> D' v s" and "\<And>s. F s \<Longrightarrow> F' s"
  shows "ensures m D' F'"
proof (cases m)
  case None
  then show ?thesis by simp
next
  case (Some r)
  then show ?thesis using assms by (cases r) auto
qed

lemma ensures_conj:
  assumes "ensures m D F" and "ensures m D' F'"
  shows "ensures m (\<lambda>v s. D v s \<and> D' v s) (\<lambda>s. F s \<and> F' s)"
proof (cases m)
  case None
  then show ?thesis by simp
next
  case (Some r)
  then show ?thesis using assms by (cases r) auto
qed

lemma ensuresI:
  assumes "\<And>v s. m = Some (Done v s) \<Longrightarrow> D v s" and "\<And>s. m = Some (Failed s) \<Longrightarrow> F s"
  shows "ensures m D F"
proof (cases m)
  case None
  then show ?thesis by simp
next
  case (Some r)
  then show ?thesis using assms by (cases r) auto
qed

lemma ensures_DoneD: "ensures m D F \<Longrightarrow> m = Some (Done v s) \<Longrightarrow> D v s"
  by simp

lemma ensures_FailedD: "ensures m D F \<Longrightarrow> m = Some (Failed s) \<Longrightarrow> F s"
  by simp

lemma path_append:
  "path h p (xs @ ys) q = (\<exists>m. path h p xs m \<and> path h m ys q)"
  by (induction xs arbitrary: p) (auto split: option.splits)

lemma path_upd:
  "a \<notin> fst ` set xs \<Longrightarrow> path (h(a := v)) p xs q = path h p xs q"
  by (induction xs arbitrary: p) (auto split: option.splits)

lemma path_agree:
  "\<forall>a \<in> fst ` set xs. h' a = h a \<Longrightarrow> path h' p xs q = path h p xs q"
  by (induction xs arbitrary: p) (auto split: option.splits)

lemma path_last_Node:
  "path h p xs q \<Longrightarrow> xs \<noteq> [] \<Longrightarrow>
   \<exists>r. h (fst (last xs)) = Some r \<and> r_start r = fst (snd (last xs)) \<and>
       r_size r = snd (snd (last xs)) \<and> r_next r = q"
  by (induction xs arbitrary: p) (auto split: option.splits)

lemma hash_range_keeps:
  "hash_range e s z st = Done h st' \<or> hash_range e s z st = Failed st' \<Longrightarrow>
   walk_view st' = walk_view st \<and> statics st' = statics st"
  by (auto simp: hash_range_def walk_view_def statics_def split: if_splits option.splits prod.splits)

lemma addhash_keeps:
  "addhash e s z h st = Done u st' \<or> addhash e s z h st = Failed st' \<Longrightarrow>
   walk_view st' = walk_view st \<and> statics st' = statics st"
  by (auto simp: addhash_def walk_view_def statics_def Let_def split: if_splits option.splits)

lemma keeps_refl [simp]: "keeps st st"
  by (simp add: keeps_def)

lemma keeps_trans: "keeps a b \<Longrightarrow> keeps b c \<Longrightarrow> keeps a c"
  by (simp add: keeps_def)

lemma hash_range_ensures:
  "ensures (Some (hash_range e s z st)) (\<lambda>h st'. keeps st st') (\<lambda>st'. keeps st st')"
  using hash_range_keeps[of e s z st]
  by (intro ensuresI) (auto simp: keeps_def)

lemma addhash_ensures:
  "ensures (Some (addhash e s z h st)) (\<lambda>u st'. keeps st st') (\<lambda>st'. keeps st st')"
  using addhash_keeps[of e s z h st]
  by (intro ensuresI) (auto simp: keeps_def)

lemma add_to_hashmap_loop_keeps:
  "add_to_hashmap_loop e offset rstart rsize rhash st = Some r \<Longrightarrow>
   ensures (Some r) (\<lambda>u st'. keeps st st') (\<lambda>st'. keeps st st')"
proof (erule add_to_hashmap_loop.raw_induct[rotated, where P="\<lambda>e offset rstart rsize rhash st r. ensures (Some r) (\<lambda>u st'. keeps st st') (\<lambda>st'. keeps st st')"], goal_cases)
  case (1 loop e offset rstart rsize rhash st r)
  have ih: "\<And>e offset rstart rsize rhash s. ensures (loop e offset rstart rsize rhash s) (\<lambda>u st'. keeps s st') (\<lambda>st'. keeps s st')"
  proof -
    fix e offset rstart rsize rhash s
    show "ensures (loop e offset rstart rsize rhash s) (\<lambda>u st'. keeps s st') (\<lambda>st'. keeps s st')"
      using 1(1)[of e offset rstart rsize rhash s] by (cases "loop e offset rstart rsize rhash s") auto
  qed
  show ?case
  proof (cases "rsize > 0")
    case False
    with 1(2) show ?thesis by auto
  next
    case True
    define hsize where "hsize =
              (if offset \<noteq> 0 then
                 (let hsize = hashblksize st - offset in if hsize > rsize then rsize else hsize)
               else if rsize > hashblksize st then hashblksize st
               else rsize)"
    have e1: "ensures (Some (case rhash of None \<Rightarrow> hash_range e rstart hsize st | Some h \<Rightarrow> Done h st))
       (\<lambda>h st'. keeps st st') (\<lambda>st'. keeps st st')"
      using hash_range_ensures[of e rstart hsize st] by (cases rhash) auto
    have "ensures (obind (Some (case rhash of None \<Rightarrow> hash_range e rstart hsize st | Some h \<Rightarrow> Done h st))
             (\<lambda>h st1. obind (Some (addhash e rstart hsize h st1))
                (\<lambda>u st2. loop e 0 (rstart + ucast hsize) (rsize - hsize) rhash st2)))
           (\<lambda>u st'. keeps st st') (\<lambda>st'. keeps st st')"
      apply (rule ensures_obind[OF e1])
      apply (rule ensures_obind)
       apply (rule ensures_weaken[OF addhash_ensures])
        apply (erule (1) keeps_trans)
       apply (erule (1) keeps_trans)
      apply (rule ensures_weaken[OF ih])
       apply (erule (1) keeps_trans)
      apply (erule (1) keeps_trans)
      done
    then show ?thesis
      using 1(2) True by (simp add: hsize_def Let_def cong: option.case_cong)
  qed
qed

subsection \<open>The output list and the current range\<close>

text \<open>
  \<open>add_to_range\<close> appends a node or lengthens the last one; the output list stays in
  shape and covers the sectors added. Stepping and narrowing the current range keep the
  ranges to go.
\<close>

lemma sectors_alt: "sectors (s, z) = {unat s ..< unat s + unat z}"
  by (simp add: sectors_def)

lemma cov_Nil [simp]: "cov [] = {}"
  by (simp add: cov_def)

lemma cov_Cons [simp]: "cov (r # rs) = sectors r \<union> cov rs"
  by (simp add: cov_def)

lemma cov_append [simp]: "cov (rs @ ts) = cov rs \<union> cov ts"
  by (simp add: cov_def)

lemma small_alt: "small (s, z) = (unat s + unat z < 4294967296)"
  by (simp add: small_def)

lemma unat_add64:
  "unat (a :: u64) + unat (b :: u64) < 4294967296 \<Longrightarrow> unat (a + b) = unat a + unat b"
  by (simp add: unat_word_ariths)

lemma unat_add32:
  "unat (a :: u32) + unat (b :: u32) < 4294967296 \<Longrightarrow> unat (a + b) = unat a + unat b"
  by (simp add: unat_word_ariths)

lemma chain_Null [simp]: "chain h Null xs = (xs = [])"
  by (cases xs) (auto simp: chain_def)

lemma add_to_range_failed:
  "add_to_range e s z st = Failed st' \<Longrightarrow> walk_view st' = walk_view st \<and> statics st' = statics st"
  by (auto simp: add_to_range_def rd_range_def wr_range_def walk_view_def statics_def Let_def
      split: option.splits if_splits rptr.splits)

lemma add_to_range_empty:
  assumes o: "outlist b0 st []" and b: "b0 \<le> brk st"
    and d: "add_to_range e s z st = Done u st'"
  shows "outlist b0 st' [(brk st, ucast s, ucast z)] \<and>
         (\<forall>a<b0. heap st' a = heap st a) \<and> brk st \<le> brk st' \<and> tmprange st' = tmprange st \<and>
         drange st' = drange st \<and> statics st' = statics st"
proof -
  have t: "range_tail st = Dummy_head" and s1: "r_start (dummy_head st) = - 1"
    and z1: "r_size (dummy_head st) = 0"
    using o by (simp_all add: outlist_def)
  have ne: "(- 1 :: u64) \<noteq> ucast s"
  proof
    assume "(- 1 :: u64) = ucast s"
    then have "unat (- 1 :: u64) = unat s" by (simp add: unat_ucast_up)
    moreover have "unat (- 1 :: u64) = 18446744073709551615"
      by (simp add: unsigned_minus_1_eq_mask mask_eq_exp_minus_1)
    ultimately show False using unat_lt32[of s] by simp
  qed
  from d have st': "e_alloc e (nalloc st) \<and> st' = st\<lparr>nalloc := nalloc st + 1, brk := brk st + 1,
       heap := fun_upd (heap st) (brk st) (Some \<lparr>r_start = ucast s, r_size = ucast z, r_next = Null\<rparr>),
       dummy_head := (dummy_head st)\<lparr>r_next := Node (brk st)\<rparr>, range_tail := Node (brk st)\<rparr>"
    using ne by (simp add: add_to_range_def rd_range_def wr_range_def t s1 z1 Let_def split: if_splits)
  show ?thesis
    using b by (simp add: st' outlist_def chain_def s1 z1 statics_def)
qed

lemma outlist_snocD:
  assumes o: "outlist b0 st (ys0 @ [(a, s0, z0)])"
  shows "range_tail st = Node a" and "a \<notin> fst ` set ys0" and "b0 \<le> a" and "a < brk st"
    and "path (heap st) (r_next (dummy_head st)) ys0 (Node a)"
    and "\<exists>r. heap st a = Some r \<and> r_start r = s0 \<and> r_size r = z0 \<and> r_next r = Null"
    and "distinct (map fst ys0)" and "\<forall>a \<in> fst ` set ys0. b0 \<le> a \<and> a < brk st"
    and "r_start (dummy_head st) = - 1" and "r_size (dummy_head st) = 0"
  using o by (auto simp: outlist_def chain_def path_append split: option.splits)

lemma outlist_snocI:
  assumes "range_tail st = Node a" and "a \<notin> fst ` set ys0" and "b0 \<le> a" and "a < brk st"
    and "path (heap st) (r_next (dummy_head st)) ys0 (Node a)"
    and "heap st a = Some r" and "r_start r = s0" and "r_size r = z0" and "r_next r = Null"
    and "distinct (map fst ys0)" and "\<forall>a \<in> fst ` set ys0. b0 \<le> a \<and> a < brk st"
    and "r_start (dummy_head st) = - 1" and "r_size (dummy_head st) = 0"
  shows "outlist b0 st (ys0 @ [(a, s0, z0)])"
  using assms by (auto simp: outlist_def chain_def path_append)

lemma add_to_range_snoc:
  assumes o: "outlist b0 st (ys0 @ [(a, s0, z0)])" and b: "b0 \<le> brk st"
    and d: "add_to_range e s z st = Done u st'"
  shows "(\<exists>y. outlist b0 st' (ys0 @ y) \<and>
            (if s0 + z0 = ucast s then y = [(a, s0, z0 + ucast z)]
             else y = [(a, s0, z0), (brk st, ucast s, ucast z)])) \<and>
         (\<forall>a<b0. heap st' a = heap st a) \<and> brk st \<le> brk st' \<and> tmprange st' = tmprange st \<and>
         drange st' = drange st \<and> statics st' = statics st"
proof -
  note f = outlist_snocD[OF o]
  from f(6) obtain r where r: "heap st a = Some r" "r_start r = s0" "r_size r = z0" "r_next r = Null"
    by blast
  show ?thesis
  proof (cases "s0 + z0 = ucast s")
    case True
    from d have st': "st' = st\<lparr>heap := fun_upd (heap st) a (Some (r\<lparr>r_size := z0 + ucast z\<rparr>))\<rparr>"
      using True by (simp add: add_to_range_def rd_range_def wr_range_def f(1) r Let_def)
    have "outlist b0 st' (ys0 @ [(a, s0, z0 + ucast z)])"
      by (rule outlist_snocI[where r="r\<lparr>r_size := z0 + ucast z\<rparr>"])
         (use f r in \<open>simp_all add: st' path_upd\<close>)
    then show ?thesis
      using True f(3) by (simp add: st' statics_def)
  next
    case False
    from d have st': "e_alloc e (nalloc st) \<and> st' = st\<lparr>nalloc := nalloc st + 1, brk := brk st + 1,
       heap := fun_upd (fun_upd (heap st) (brk st)
                 (Some \<lparr>r_start = ucast s, r_size = ucast z, r_next = Null\<rparr>))
                 a (Some (r\<lparr>r_next := Node (brk st)\<rparr>)),
       range_tail := Node (brk st)\<rparr>"
      using False f(4)
      by (simp add: add_to_range_def rd_range_def wr_range_def f(1) r Let_def split: if_splits)
    have nb: "brk st \<notin> fst ` set ys0" using f(8) by auto
    have p1: "path (heap st') (r_next (dummy_head st')) ys0 (Node a)"
      using f(5) f(2) nb by (simp add: st' path_upd)
    have "outlist b0 st' ((ys0 @ [(a, s0, z0)]) @ [(brk st, ucast s, ucast z)])"
      apply (rule outlist_snocI[where r="\<lparr>r_start = ucast s, r_size = ucast z, r_next = Null\<rparr>"])
      using f r b p1 nb
      by (auto simp: st' path_append)
    then show ?thesis
      using False f(3) f(4) by (simp add: st' statics_def)
  qed
qed

lemma add_to_range_out:
  assumes o: "outlist b0 st ys" and b: "b0 \<le> brk st"
    and sm: "\<forall>r \<in> set (map snd ys). small r" and n: "unat s + unat z < 4294967296"
    and d: "add_to_range e s z st = Done u st'"
  shows "(\<exists>ys'. outlist b0 st' ys' \<and> (\<forall>r \<in> set (map snd ys'). small r) \<and>
            cov (map snd ys') = cov (map snd ys) \<union> {unat s ..< unat s + unat z}) \<and>
         out_step b0 st st'"
proof (cases ys rule: rev_cases)
  case Nil
  from add_to_range_empty[OF o[unfolded Nil] b d] n show ?thesis
    by (auto simp: Nil out_step_def small_alt sectors_alt unat_ucast_up
        intro!: exI[where x="[(brk st, ucast s, ucast z)]"])
next
  case (snoc ys0 y)
  obtain a s0 z0 where y: "y = (a, s0, z0)" by (cases y)
  note r = add_to_range_snoc[OF o[unfolded snoc y] b d]
  have sm0: "\<forall>r \<in> set (map snd ys0). small r" and sy: "unat s0 + unat z0 < 4294967296"
    using sm by (auto simp: snoc y small_alt)
  show ?thesis
  proof (cases "s0 + z0 = ucast s")
    case True
    then have "unat (s0 + z0) = unat s" by (simp add: unat_ucast_up)
    then have e1: "unat s0 + unat z0 = unat s" using sy by (simp add: unat_add64)
    have e2: "unat (z0 + ucast z) = unat z0 + unat z"
      using n e1 by (simp add: unat_add64 unat_ucast_up)
    have o': "outlist b0 st' (ys0 @ [(a, s0, z0 + ucast z)])"
      using r True by auto
    have c: "sectors (s0, z0 + ucast z) = sectors (s0, z0) \<union> {unat s ..< unat s + unat z}"
      using e1 by (auto simp: sectors_alt e2)
    have s': "small (s0, z0 + ucast z)"
      using n e1 by (simp add: small_alt e2)
    show ?thesis
      apply (rule conjI)
       apply (rule exI[where x="ys0 @ [(a, s0, z0 + ucast z)]"])
      using o' c s' sm0 r
      by (auto simp: snoc y out_step_def)
  next
    case False
    have o': "outlist b0 st' (ys0 @ [(a, s0, z0), (brk st, ucast s, ucast z)])"
      using r False by auto
    show ?thesis
      apply (rule conjI)
       apply (rule exI[where x="ys0 @ [(a, s0, z0), (brk st, ucast s, ucast z)]"])
      using o' sm n r
      by (auto simp: snoc y out_step_def small_alt sectors_alt unat_ucast_up)
  qed
qed

lemma remaining_step:
  "remaining b0 st rem \<Longrightarrow> out_step b0 st st' \<Longrightarrow> remaining b0 st' rem"
  unfolding remaining_def out_step_def chain_def
  apply (cases "drange st = Null")
   apply simp
  apply simp
  apply (elim conjE exE)
  subgoal for rest
    apply (rule exI[where x=rest])
    apply simp
    apply (subst path_agree[where h="heap st"])
     apply auto
    done
  done

lemma outlist_keeps: "outlist b0 st ys \<Longrightarrow> walk_view st' = walk_view st \<Longrightarrow> outlist b0 st' ys"
  by (simp add: outlist_def walk_view_def)

lemma remaining_keeps: "remaining b0 st rem \<Longrightarrow> walk_view st' = walk_view st \<Longrightarrow> remaining b0 st' rem"
  by (cases "drange st = Null") (auto simp: remaining_def walk_view_def)

lemma framed_keeps: "framed b0 h0 st \<Longrightarrow> walk_view st' = walk_view st \<Longrightarrow> framed b0 h0 st'"
  by (auto simp: framed_def walk_view_def outlist_def)

lemma walk_inv_keeps: "walk_inv b0 h0 C0 M st \<Longrightarrow> walk_view st' = walk_view st \<Longrightarrow> walk_inv b0 h0 C0 M st'"
proof -
  assume w: "walk_inv b0 h0 C0 M st" and v: "walk_view st' = walk_view st"
  from w obtain ys rem where a: "outlist b0 st ys" "remaining b0 st rem"
    "\<forall>r \<in> set (map snd ys). small r" "\<forall>r \<in> set rem. small r"
    "C0 \<subseteq> cov (map snd ys) \<union> M \<union> cov rem" "cov (map snd ys) \<union> cov rem \<subseteq> C0"
    unfolding walk_inv_def by blast
  have h: "heap st' = heap st" "brk st' = brk st" using v by (simp_all add: walk_view_def)
  have "outlist b0 st' ys" "remaining b0 st' rem"
    using a v by (simp_all add: outlist_keeps remaining_keeps)
  with a w show ?thesis
    unfolding walk_inv_def h by blast
qed

lemma walk_inv_framed: "walk_inv b0 h0 C0 M st \<Longrightarrow> framed b0 h0 st"
  by (auto simp: walk_inv_def framed_def remaining_def split: if_splits)

lemma walk_ok_walk_at:
  "walk_ok b0 h0 C0 M S st =
   (\<exists>ys rem. walk_at b0 h0 S st ys rem \<and> C0 \<subseteq> cov (map snd ys) \<union> M \<union> cov rem \<and>
              cov (map snd ys) \<union> cov rem \<subseteq> C0)"
  unfolding walk_ok_def walk_inv_def walk_at_def by blast

lemma walk_at_frame_ok: "walk_at b0 h0 S st ys rem \<Longrightarrow> frame_ok b0 h0 S st"
  by (auto simp: walk_at_def frame_ok_def framed_def remaining_def split: if_splits)

lemma walk_at_keeps: "walk_at b0 h0 S st ys rem \<Longrightarrow> keeps st st' \<Longrightarrow> walk_at b0 h0 S st' ys rem"
  unfolding walk_at_def keeps_def
  using outlist_keeps[of b0 st ys st'] remaining_keeps[of b0 st rem st']
  by (auto simp: walk_view_def)

lemma frame_ok_keeps: "frame_ok b0 h0 S st \<Longrightarrow> keeps st st' \<Longrightarrow> frame_ok b0 h0 S st'"
  unfolding frame_ok_def keeps_def using framed_keeps[of b0 h0 st st'] by auto

lemma add_to_hashmap_keeps:
  "ensures (add_to_hashmap e rstart rsize rhash st) (\<lambda>u st'. keeps st st') (\<lambda>st'. keeps st st')"
proof (cases "add_to_hashmap e rstart rsize rhash st")
  case None
  then show ?thesis by simp
next
  case (Some r)
  then show ?thesis
    using add_to_hashmap_loop_keeps[of e _ rstart rsize rhash st r]
    by (auto simp: add_to_hashmap_def split: if_splits)
qed

lemma deref_Tmprange [simp]: "drange st = Tmprange \<Longrightarrow> deref_drange st = Done (tmprange st) st"
  by (simp add: deref_drange_def rd_range_def)

lemma deref_Null [simp]: "drange st = Null \<Longrightarrow> deref_drange st = Abort Bad_pointer"
  by (simp add: deref_drange_def rd_range_def)

lemma assign_Tmprange [simp]:
  "drange st = Tmprange \<Longrightarrow> assign_drange r st = Done () (st\<lparr>tmprange := r\<rparr>)"
  by (simp add: assign_drange_def wr_range_def)

lemma walk_at_drange: "walk_at b0 h0 S st ys rem \<Longrightarrow> drange st = Null \<or> drange st = Tmprange"
  by (auto simp: walk_at_def remaining_def split: if_splits)

lemma walk_at_Null: "walk_at b0 h0 S st ys rem \<Longrightarrow> drange st = Null \<Longrightarrow> rem = []"
  by (auto simp: walk_at_def remaining_def split: if_splits)

lemma walk_at_Cons:
  "walk_at b0 h0 S st ys rem \<Longrightarrow> drange st \<noteq> Null \<Longrightarrow>
   drange st = Tmprange \<and> (\<exists>rem'. rem = (r_start (tmprange st), r_size (tmprange st)) # rem')"
  by (auto simp: walk_at_def remaining_def split: if_splits)

lemma walk_at_Cons_drange: "walk_at b0 h0 S st ys (x # rem) \<Longrightarrow> drange st = Tmprange \<and> x = (r_start (tmprange st), r_size (tmprange st))"
  by (auto simp: walk_at_def remaining_def split: if_splits)

lemma hash_new_range_keeps:
  "drange st = Tmprange \<Longrightarrow>
   ensures (hash_new_range e nhf szf st) (\<lambda>u st'. keeps st st') (\<lambda>st'. keeps st st')"
  using add_to_hashmap_keeps[of e "r_start (tmprange st)" "szf (tmprange st)" None st]
  by (simp add: hash_new_range_def)

lemma next_walk_at:
  assumes w: "walk_at b0 h0 S st ys (x # rem)"
  shows "ensures (Some (next_drange st)) (\<lambda>u st'. walk_at b0 h0 S st' ys rem) (\<lambda>st'. False)"
proof -
  from w have dr: "drange st = Tmprange" by (rule walk_at_Cons_drange[THEN conjunct1])
  from w obtain rest where rest: "rem = map snd rest" "chain (heap st) (r_next (tmprange st)) rest"
    "\<forall>a \<in> fst ` set rest. a < b0"
    by (auto simp: walk_at_def remaining_def dr)
  show ?thesis
  proof (cases rest)
    case Nil
    then have nx: "r_next (tmprange st) = Null" using rest by (simp add: chain_def)
    have "next_drange st = Done () (st\<lparr>drange := Null\<rparr>)"
      by (simp add: next_drange_def rd_range_def dr nx COPYRANGE_def)
    moreover have "walk_at b0 h0 S (st\<lparr>drange := Null\<rparr>) ys rem"
      using w rest Nil by (simp add: walk_at_def outlist_def remaining_def statics_def)
    ultimately show ?thesis by simp
  next
    case (Cons y rest')
    obtain a s z where y: "y = (a, s, z)" by (cases y)
    from rest Cons y obtain r where r: "r_next (tmprange st) = Node a" "heap st a = Some r"
      "r_start r = s" "r_size r = z" "chain (heap st) (r_next r) rest'"
      by (auto simp: chain_def split: option.splits)
    let ?st = "st\<lparr>tmprange := r, drange := Tmprange\<rparr>"
    have "next_drange st = Done () ?st \<or> next_drange st = Abort Assert"
      by (simp add: next_drange_def rd_range_def dr r COPYRANGE_def)
    moreover have "walk_at b0 h0 S ?st ys rem"
      using w rest Cons y r
      by (auto simp: walk_at_def outlist_def remaining_def statics_def intro!: exI[where x=rest'])
    ultimately show ?thesis by auto
  qed
qed

lemma assign_walk_at:
  assumes w: "walk_at b0 h0 S st ys (x # rem)" and s: "small (a, b)"
  shows "walk_at b0 h0 S (st\<lparr>tmprange := (tmprange st)\<lparr>r_start := a, r_size := b\<rparr>\<rparr>) ys ((a, b) # rem)"
  using w s by (auto simp: walk_at_def outlist_def remaining_def statics_def split: if_splits)

lemma add_walk_at:
  assumes w: "walk_at b0 h0 S st ys rem" and n: "unat s + unat z < 4294967296"
  shows "ensures (Some (add_to_range e s z st))
           (\<lambda>u st'. \<exists>ys'. walk_at b0 h0 S st' ys' rem \<and>
                       cov (map snd ys') = cov (map snd ys) \<union> {unat s ..< unat s + unat z} \<and>
                       tmprange st' = tmprange st \<and> drange st' = drange st)
           (frame_ok b0 h0 S)"
proof (rule ensuresI)
  fix v st' assume "Some (add_to_range e s z st) = Some (Done v st')"
  then have d: "add_to_range e s z st = Done v st'" by simp
  from w have o: "outlist b0 st ys" and b: "b0 \<le> brk st" and sm: "\<forall>r \<in> set (map snd ys). small r"
    by (simp_all add: walk_at_def)
  from add_to_range_out[OF o b sm n d] obtain ys' where
    ys': "outlist b0 st' ys'" "\<forall>r \<in> set (map snd ys'). small r"
    "cov (map snd ys') = cov (map snd ys) \<union> {unat s ..< unat s + unat z}" and os: "out_step b0 st st'"
    by blast
  have "walk_at b0 h0 S st' ys' rem"
    using w ys' os remaining_step[OF _ os, of rem]
    by (simp add: walk_at_def out_step_def)
  then show "\<exists>ys'. walk_at b0 h0 S st' ys' rem \<and>
                cov (map snd ys') = cov (map snd ys) \<union> {unat s ..< unat s + unat z} \<and>
                tmprange st' = tmprange st \<and> drange st' = drange st"
    using ys' os by (auto simp: out_step_def)
next
  fix st' assume "Some (add_to_range e s z st) = Some (Failed st')"
  then have "keeps st st'" using add_to_range_failed[of e s z st st'] by (simp add: keeps_def)
  then show "frame_ok b0 h0 S st'" using walk_at_frame_ok[OF w] frame_ok_keeps by blast
qed

lemma ensures_obind2:
  assumes "ensures m D1 F1" and "\<And>s. F1 s \<Longrightarrow> F s"
    and "\<And>v s. D1 v s \<Longrightarrow> ensures (f v s) D F"
  shows "ensures (obind m f) D F"
proof (cases m)
  case None
  then show ?thesis by simp
next
  case (Some r)
  then show ?thesis using assms by (cases r) auto
qed

lemma emit_ensures:
  fixes st :: "'fx hstate"
  assumes w: "walk_at b0 h0 S st ys ((s, z) # rem)"
    and k: "\<And>st' ys'. walk_at b0 h0 S st' ys' rem \<Longrightarrow>
               cov (map snd ys') = cov (map snd ys) \<union> sectors (s, z) \<Longrightarrow> ensures (k st') D F"
    and f: "\<And>st'. frame_ok b0 h0 S st' \<Longrightarrow> F st'"
  shows "ensures
           (obind (Some (add_to_range e (ucast s) (ucast z) st))
              (\<lambda>u st1. obind (hash_new_range e nhf szf st1)
                 (\<lambda>u st2. obind (Some (next_drange st2)) (\<lambda>u st3. k st3)))) D F"
proof -
  from w have sm: "unat s + unat z < 4294967296" by (simp add: walk_at_def small_alt)
  then have e: "unat (ucast s :: u32) = unat s" "unat (ucast z :: u32) = unat z"
    by (simp_all add: unat_ucast_down)
  have n: "unat (ucast s :: u32) + unat (ucast z :: u32) < 4294967296" using sm by (simp add: e)
  show ?thesis
  proof (rule ensures_obind2[OF add_walk_at[OF w n]], erule f, elim exE conjE)
    fix v and st1 :: "'fx hstate" and ys'
    assume w1: "walk_at b0 h0 S st1 ys' ((s, z) # rem)"
      and c: "cov (map snd ys') = cov (map snd ys) \<union> {unat (ucast s :: u32) ..< unat (ucast s :: u32) + unat (ucast z :: u32)}"
    have d1: "drange st1 = Tmprange" using walk_at_Cons_drange[OF w1] by simp
    show "ensures (obind (hash_new_range e nhf szf st1)
                 (\<lambda>u st2. obind (Some (next_drange st2)) (\<lambda>u st3. k st3))) D F"
    proof (rule ensures_obind2[OF hash_new_range_keeps[OF d1]])
      fix st2 :: "'fx hstate" assume "keeps st1 st2"
      then show "F st2" using walk_at_frame_ok[OF w1] frame_ok_keeps f by blast
    next
      fix u and st2 :: "'fx hstate" assume "keeps st1 st2"
      then have w2: "walk_at b0 h0 S st2 ys' ((s, z) # rem)" using w1 walk_at_keeps by blast
      show "ensures (obind (Some (next_drange st2)) (\<lambda>u st3. k st3)) D F"
        apply (rule ensures_obind2[OF next_walk_at[OF w2]])
         apply simp
        apply (rule k)
         apply assumption
        apply (simp add: c e sectors_alt)
        done
    qed
  qed
qed

subsection \<open>The walk keeps the invariant\<close>

text \<open>
  Every sector of the caller's ranges stays in the output, in a matching hash region or
  among the ranges to go, through each step of the walk, as long as ranges and hash
  regions end below sector \<open>2^32\<close>.
\<close>

lemma walk_ok_emit:
  fixes st :: "'fx hstate" and st' :: "'fx hstate"
  assumes "C0 \<subseteq> cov (map snd ys) \<union> M \<union> cov ((s, z) # rem)"
    and "cov (map snd ys) \<union> cov ((s, z) # rem) \<subseteq> C0"
    and "walk_at b0 h0 S st' ys' rem" and "cov (map snd ys') = cov (map snd ys) \<union> sectors (s, z)"
  shows "walk_ok b0 h0 C0 M S st'"
  unfolding walk_ok_walk_at
  apply (rule exI[where x=ys'])
  apply (rule exI[where x=rem])
  using assms by auto

lemma walk_ok_frame_ok: "walk_ok b0 h0 C0 M S st \<Longrightarrow> frame_ok b0 h0 S st"
  unfolding walk_ok_walk_at using walk_at_frame_ok by blast

lemma ensures_opt:
  "(\<And>y. m = Some y \<Longrightarrow> ensures (Some y) D F) \<Longrightarrow> ensures m D F"
  by (cases m) auto

lemma pre_hreg_loop_walk_ok:
  fixes st :: "'fx hstate"
  assumes r: "pre_hreg_loop e nhf hreg st = Some r" and g: "walk_ok b0 h0 C0 M S st"
  shows "ensures (Some r) (\<lambda>u. walk_ok b0 h0 C0 M S) (frame_ok b0 h0 S)"
  using r g
proof (induction rule: pre_hreg_loop.raw_induct[rotated, consumes 1, case_names step])
  case (step loop e nhf hreg st r)
  have ih: "\<And>s. walk_ok b0 h0 C0 M S s \<Longrightarrow>
              ensures (loop e nhf hreg s) (\<lambda>u. walk_ok b0 h0 C0 M S) (frame_ok b0 h0 S)"
    by (rule ensures_opt) (rule step.IH)
  from step.prems obtain ys rem where w: "walk_at b0 h0 S st ys rem"
    and c: "C0 \<subseteq> cov (map snd ys) \<union> M \<union> cov rem" "cov (map snd ys) \<union> cov rem \<subseteq> C0"
    unfolding walk_ok_walk_at by blast
  show ?case
  proof (cases "drange st = Null")
    case True
    with step.hyps step.prems show ?thesis by auto
  next
    case False
    with walk_at_Cons[OF w] obtain rem' where dr: "drange st = Tmprange"
      and rem: "rem = (r_start (tmprange st), r_size (tmprange st)) # rem'"
      by blast
    show ?thesis
    proof (cases "r_start (tmprange st) + r_size (tmprange st) \<le> hr_start hreg")
      case False
      with step.hyps step.prems dr show ?thesis by auto
    next
      case True
      have "ensures (obind (Some (add_to_range e (ucast (r_start (tmprange st)))
                 (ucast (r_size (tmprange st))) st))
              (\<lambda>u st1. obind (hash_new_range e nhf (\<lambda>d. ucast (r_size d)) st1)
                 (\<lambda>u st2. obind (Some (next_drange st2)) (\<lambda>u st3. loop e nhf hreg st3))))
              (\<lambda>u. walk_ok b0 h0 C0 M S) (frame_ok b0 h0 S)"
        apply (rule emit_ensures[OF w[unfolded rem]])
         apply (rule ih)
         apply (rule walk_ok_emit[OF c[unfolded rem]])
          apply assumption+
        done
      with step.hyps True dr show ?thesis by simp
    qed
  qed
qed

lemma final_loop_walk_ok:
  fixes st :: "'fx hstate"
  assumes r: "final_loop e nhf at_end st = Some r" and g: "walk_ok b0 h0 C0 M S st"
  shows "ensures (Some r) (\<lambda>u st'. walk_ok b0 h0 C0 M S st' \<and> drange st' = Null) (frame_ok b0 h0 S)"
  using r g
proof (induction rule: final_loop.raw_induct[rotated, consumes 1, case_names step])
  case (step loop e nhf at_end st r)
  have ih: "\<And>s. walk_ok b0 h0 C0 M S s \<Longrightarrow>
              ensures (loop e nhf at_end s) (\<lambda>u st'. walk_ok b0 h0 C0 M S st' \<and> drange st' = Null) (frame_ok b0 h0 S)"
    by (rule ensures_opt) (rule step.IH)
  from step.prems obtain ys rem where w: "walk_at b0 h0 S st ys rem"
    and c: "C0 \<subseteq> cov (map snd ys) \<union> M \<union> cov rem" "cov (map snd ys) \<union> cov rem \<subseteq> C0"
    unfolding walk_ok_walk_at by blast
  show ?case
  proof (cases "drange st = Null")
    case True
    with step.hyps step.prems show ?thesis by auto
  next
    case False
    with walk_at_Cons[OF w] obtain rem' where dr: "drange st = Tmprange"
      and rem: "rem = (r_start (tmprange st), r_size (tmprange st)) # rem'"
      by blast
    show ?thesis
    proof (cases at_end)
      case False
      with step.hyps step.prems dr show ?thesis by auto
    next
      case True
      have "ensures (obind (Some (add_to_range e (ucast (r_start (tmprange st)))
                 (ucast (r_size (tmprange st))) st))
              (\<lambda>u st1. obind (hash_new_range e nhf (\<lambda>d. ucast (r_size d)) st1)
                 (\<lambda>u st2. obind (Some (next_drange st2)) (\<lambda>u st3. loop e nhf at_end st3))))
              (\<lambda>u st'. walk_ok b0 h0 C0 M S st' \<and> drange st' = Null) (frame_ok b0 h0 S)"
        apply (rule emit_ensures[OF w[unfolded rem]])
         apply (rule ih)
         apply (rule walk_ok_emit[OF c[unfolded rem]])
          apply assumption+
        done
      with step.hyps True dr show ?thesis by simp
    qed
  qed
qed

lemma hsmall_alt: "hsmall hreg = (unat (hr_start hreg) + unat (hr_size hreg) < 4294967296)"
  by (simp add: hsmall_def)

lemma down32: "unat (x :: u64) < 4294967296 \<Longrightarrow> unat (ucast x :: u32) = unat x"
  by (simp add: unat_ucast_down)

lemma unat_sub64: "unat (b :: u64) \<le> unat a \<Longrightarrow> unat (a - b) = unat a - unat b"
  by (simp add: unat_sub word_le_nat_alt)

lemma unat_sub32: "unat (b :: u32) \<le> unat a \<Longrightarrow> unat (a - b) = unat a - unat b"
  by (simp add: unat_sub word_le_nat_alt)

lemma head_split_walk_ok:
  fixes st :: "'fx hstate"
  assumes g: "walk_ok b0 h0 C0 M S st" and hs: "hsmall hreg" and dr: "drange st = Tmprange"
    and pre: "unat (hr_start hreg) < unat (r_start (tmprange st)) + unat (r_size (tmprange st))"
  shows "ensures (head_split e nhf hreg st) (\<lambda>u. walk_ok b0 h0 C0 M S) (frame_ok b0 h0 S)"
proof -
  define s z where "s = r_start (tmprange st)" and "z = r_size (tmprange st)"
  define before where "before = (ucast (hr_start hreg - s) :: u32)"
  from g obtain ys rem where w: "walk_at b0 h0 S st ys rem"
    and c: "C0 \<subseteq> cov (map snd ys) \<union> M \<union> cov rem" "cov (map snd ys) \<union> cov rem \<subseteq> C0"
    unfolding walk_ok_walk_at by blast
  from walk_at_Cons[OF w] dr obtain rem' where rem: "rem = (s, z) # rem'"
    by (auto simp: s_def z_def)
  have sz: "unat s + unat z < 4294967296" using w by (simp add: walk_at_def rem small_alt)
  have hsm: "unat (hr_start hreg) < 4294967296" using hs by (simp add: hsmall_alt)
  have pre': "unat (hr_start hreg) < unat s + unat z" using pre by (simp add: s_def z_def)
  show ?thesis
  proof (cases "s < hr_start hreg")
    case False
    then show ?thesis using g dr by (simp add: head_split_def s_def)
  next
    case True
    then have lt: "unat s < unat (hr_start hreg)" by (simp add: word_less_nat_alt)
    have b1: "unat before = unat (hr_start hreg) - unat s"
      using lt hsm by (simp add: before_def down32 unat_sub64)
    have s32: "unat (ucast s :: u32) = unat s" using sz by (simp add: down32)
    have n: "unat (ucast s :: u32) + unat before < 4294967296" using lt hsm by (simp add: b1 s32)
    have ub: "unat (ucast before :: u64) = unat (hr_start hreg) - unat s"
      by (simp add: unat_ucast_up b1)
    have a1: "unat (s + ucast before) = unat (hr_start hreg)"
      using lt hsm by (simp add: unat_add64 ub)
    have a2: "unat (z - ucast before) = unat z - (unat (hr_start hreg) - unat s)"
      using pre' lt by (simp add: unat_sub64 ub)
    have sm2: "small (s + ucast before, z - ucast before)"
      using pre' lt sz by (simp add: small_alt a1 a2)
    have cv: "sectors (s, z) = {unat s ..< unat (hr_start hreg)} \<union> sectors (s + ucast before, z - ucast before)"
      using pre' lt by (auto simp: sectors_alt a1 a2)
    have "ensures
       (obind (Some (add_to_range e (ucast s) before st))
          (\<lambda>u st1. obind (hash_new_range e nhf (\<lambda>d. before) st1)
             (\<lambda>u st2. obind (Some (deref_drange st2))
                (\<lambda>d2 st3. Some (assign_drange
                    (d2\<lparr>r_start := r_start d2 + ucast before, r_size := r_size d2 - ucast before\<rparr>) st3)))))
       (\<lambda>u. walk_ok b0 h0 C0 M S) (frame_ok b0 h0 S)"
    proof (rule ensures_obind2[OF add_walk_at[OF w n]], assumption, elim exE conjE)
      fix v and st1 :: "'fx hstate" and ys'
      assume w1: "walk_at b0 h0 S st1 ys' rem"
        and c1: "cov (map snd ys') = cov (map snd ys) \<union> {unat (ucast s :: u32) ..< unat (ucast s :: u32) + unat before}"
        and t1: "tmprange st1 = tmprange st" and d1: "drange st1 = drange st"
      have d1': "drange st1 = Tmprange" using d1 dr by simp
      show "ensures (obind (hash_new_range e nhf (\<lambda>d. before) st1)
             (\<lambda>u st2. obind (Some (deref_drange st2))
                (\<lambda>d2 st3. Some (assign_drange
                    (d2\<lparr>r_start := r_start d2 + ucast before, r_size := r_size d2 - ucast before\<rparr>) st3))))
          (\<lambda>u. walk_ok b0 h0 C0 M S) (frame_ok b0 h0 S)"
      proof (rule ensures_obind2[OF hash_new_range_keeps[OF d1']])
        fix st2 :: "'fx hstate" assume "keeps st1 st2"
        then show "frame_ok b0 h0 S st2" using walk_at_frame_ok[OF w1] frame_ok_keeps by blast
      next
        fix u and st2 :: "'fx hstate" assume k: "keeps st1 st2"
        then have w2: "walk_at b0 h0 S st2 ys' ((s, z) # rem')" using w1 walk_at_keeps rem by blast
        have d2: "drange st2 = Tmprange" and t2: "tmprange st2 = tmprange st"
          using k d1' t1 by (simp_all add: keeps_def walk_view_def)
        have w3: "walk_at b0 h0 S (st2\<lparr>tmprange := (tmprange st2)\<lparr>r_start := s + ucast before,
                      r_size := z - ucast before\<rparr>\<rparr>) ys' ((s + ucast before, z - ucast before) # rem')"
          by (rule assign_walk_at[OF w2 sm2])
        have "walk_ok b0 h0 C0 M S (st2\<lparr>tmprange := (tmprange st2)\<lparr>r_start := s + ucast before,
                      r_size := z - ucast before\<rparr>\<rparr>)"
          unfolding walk_ok_walk_at
          apply (rule exI[where x=ys'])
          apply (rule exI[where x="(s + ucast before, z - ucast before) # rem'"])
          using w3 c c1 cv lt by (auto simp: rem s32 b1)
        then show "ensures (obind (Some (deref_drange st2))
                (\<lambda>d2 st3. Some (assign_drange
                    (d2\<lparr>r_start := r_start d2 + ucast before, r_size := r_size d2 - ucast before\<rparr>) st3)))
            (\<lambda>u. walk_ok b0 h0 C0 M S) (frame_ok b0 h0 S)"
          using d2 t2 by (simp add: s_def z_def)
      qed
    qed
    then show ?thesis
      using True dr by (simp add: head_split_def Let_def s_def[symmetric] before_def[symmetric])
  qed
qed

lemma hash_and_cmp_nofix:
  assumes "\<not> e_hasfixup e (fx st) (hr_start hreg) (hr_size hreg)"
  shows "ensures (Some (hash_and_cmp e hreg st))
           (\<lambda>ch st'. st' = st \<and> (fst ch = 0 \<longrightarrow> disk_hash_matches e (hashfunc st) (hashlen st) hreg))
           (\<lambda>st'. st' = st)"
  using assms
  by (auto simp: hash_and_cmp_def hash_range_def disk_hash_matches_def split: option.splits)

lemma walk_ok_keeps: "walk_ok b0 h0 C0 M S st \<Longrightarrow> keeps st st' \<Longrightarrow> walk_ok b0 h0 C0 M S st'"
  unfolding walk_ok_walk_at using walk_at_keeps by blast

lemma overlap_decision_walk_ok:
  fixes st :: "'fx hstate"
  assumes g: "walk_ok b0 h0 C0 M S st"
  shows "ensures (overlap_decision e nhf hreg st)
           (\<lambda>ch st'. walk_ok b0 h0 C0 M S st' \<and> keeps st st' \<and>
                      (ch = 0 \<longrightarrow> disk_hash_matches e (hashfunc st) (hashlen st) hreg))
           (frame_ok b0 h0 S)"
proof (cases "drange st = Null")
  case True
  then show ?thesis by (simp add: overlap_decision_def)
next
  case False
  from g obtain ys rem where w: "walk_at b0 h0 S st ys rem" unfolding walk_ok_walk_at by blast
  from walk_at_Cons[OF w False] have dr: "drange st = Tmprange" by simp
  let ?c = "hash_free st \<or> (r_start (tmprange st) = hr_start hreg \<and> r_size (tmprange st) \<ge> ucast (hr_size hreg))"
  show ?thesis
  proof (cases "?c \<and> \<not> e_hasfixup e (fx st) (hr_start hreg) (hr_size hreg)")
    case False
    then show ?thesis using g dr by (auto simp: overlap_decision_def)
  next
    case True
    then have nf: "\<not> e_hasfixup e (fx st) (hr_start hreg) (hr_size hreg)" by simp
    have "ensures (obind (Some (hash_and_cmp e hreg st))
                    (\<lambda>ch st1.
                       if nhf
                       then obind (add_to_hashmap e (hr_start hreg) (hr_size hreg)
                                     (Some (snd ch)) st1)
                              (\<lambda>u st2. Some (Done (fst ch) st2))
                       else Some (Done (fst ch) st1)))
           (\<lambda>ch st'. walk_ok b0 h0 C0 M S st' \<and> keeps st st' \<and>
                      (ch = 0 \<longrightarrow> disk_hash_matches e (hashfunc st) (hashlen st) hreg))
           (frame_ok b0 h0 S)"
    proof (rule ensures_obind2[OF hash_and_cmp_nofix[OF nf]])
      fix s :: "'fx hstate" assume "s = st"
      then show "frame_ok b0 h0 S s" using g walk_ok_frame_ok by blast
    next
      fix v :: "int \<times> bytes" and s :: "'fx hstate"
      assume a: "s = st \<and> (fst v = 0 \<longrightarrow> disk_hash_matches e (hashfunc st) (hashlen st) hreg)"
      show "ensures (if nhf
                       then obind (add_to_hashmap e (hr_start hreg) (hr_size hreg)
                                     (Some (snd v)) s)
                              (\<lambda>u st2. Some (Done (fst v) st2))
                       else Some (Done (fst v) s))
           (\<lambda>ch st'. walk_ok b0 h0 C0 M S st' \<and> keeps st st' \<and>
                      (ch = 0 \<longrightarrow> disk_hash_matches e (hashfunc st) (hashlen st) hreg))
           (frame_ok b0 h0 S)"
      proof (cases nhf)
        case False
        then show ?thesis using a g by simp
      next
        case True
        have "ensures (obind (add_to_hashmap e (hr_start hreg) (hr_size hreg) (Some (snd v)) st)
                              (\<lambda>u st2. Some (Done (fst v) st2)))
           (\<lambda>ch st'. walk_ok b0 h0 C0 M S st' \<and> keeps st st' \<and>
                      (ch = 0 \<longrightarrow> disk_hash_matches e (hashfunc st) (hashlen st) hreg))
           (frame_ok b0 h0 S)"
        proof (rule ensures_obind2[OF add_to_hashmap_keeps])
          fix s2 :: "'fx hstate" assume "keeps st s2"
          then show "frame_ok b0 h0 S s2" using frame_ok_keeps[OF walk_ok_frame_ok[OF g]] by simp
        next
          fix u and s2 :: "'fx hstate" assume k: "keeps st s2"
          then show "ensures (Some (Done (fst v) s2))
             (\<lambda>ch st'. walk_ok b0 h0 C0 M S st' \<and> keeps st st' \<and>
                      (ch = 0 \<longrightarrow> disk_hash_matches e (hashfunc st) (hashlen st) hreg))
             (frame_ok b0 h0 S)"
            using walk_ok_keeps[OF g k] a by simp
        qed
        then show ?thesis using True a by simp
      qed
    qed
    then show ?thesis using True dr by (simp add: overlap_decision_def)
  qed
qed

lemma piece_ensures:
  fixes st1 :: "'fx hstate"
  assumes w: "walk_at b0 h0 S st1 ys rem" and n: "unat cs + unat cz < 4294967296"
    and m: "changed = 0 \<longrightarrow> {unat cs ..< unat cs + unat cz} \<subseteq> M"
  shows "ensures
     (if changed \<noteq> (0 :: int)
      then obind (Some (add_to_range e cs cz st1))
             (\<lambda>u st2. if changed > 1 \<and> nhf
                       then add_to_hashmap e (ucast cs) cz None st2
                       else Some (Done () st2))
      else Some (Done () st1))
     (\<lambda>u st'. \<exists>ys'. walk_at b0 h0 S st' ys' rem \<and> tmprange st' = tmprange st1 \<and>
                  drange st' = drange st1 \<and>
                  cov (map snd ys') \<subseteq> cov (map snd ys) \<union> {unat cs ..< unat cs + unat cz} \<and>
                  cov (map snd ys) \<union> {unat cs ..< unat cs + unat cz} \<subseteq> cov (map snd ys') \<union> M)
     (frame_ok b0 h0 S)"
proof (cases "changed = 0")
  case True
  then show ?thesis using w m by auto
next
  case False
  have "ensures (obind (Some (add_to_range e cs cz st1))
             (\<lambda>u st2. if changed > 1 \<and> nhf
                       then add_to_hashmap e (ucast cs) cz None st2
                       else Some (Done () st2)))
     (\<lambda>u st'. \<exists>ys'. walk_at b0 h0 S st' ys' rem \<and> tmprange st' = tmprange st1 \<and>
                  drange st' = drange st1 \<and>
                  cov (map snd ys') \<subseteq> cov (map snd ys) \<union> {unat cs ..< unat cs + unat cz} \<and>
                  cov (map snd ys) \<union> {unat cs ..< unat cs + unat cz} \<subseteq> cov (map snd ys') \<union> M)
     (frame_ok b0 h0 S)"
  proof (rule ensures_obind2[OF add_walk_at[OF w n]], assumption, elim exE conjE)
    fix v and st2 :: "'fx hstate" and ys'
    assume w2: "walk_at b0 h0 S st2 ys' rem"
      and c: "cov (map snd ys') = cov (map snd ys) \<union> {unat cs ..< unat cs + unat cz}"
      and t: "tmprange st2 = tmprange st1" and d: "drange st2 = drange st1"
    have k: "\<And>s3. keeps st2 s3 \<Longrightarrow> \<exists>ys'. walk_at b0 h0 S s3 ys' rem \<and> tmprange s3 = tmprange st1 \<and>
                  drange s3 = drange st1 \<and>
                  cov (map snd ys') \<subseteq> cov (map snd ys) \<union> {unat cs ..< unat cs + unat cz} \<and>
                  cov (map snd ys) \<union> {unat cs ..< unat cs + unat cz} \<subseteq> cov (map snd ys') \<union> M"
    proof -
      fix s3 :: "'fx hstate" assume k3: "keeps st2 s3"
      have "walk_at b0 h0 S s3 ys' rem" by (rule walk_at_keeps[OF w2 k3])
      moreover have "tmprange s3 = tmprange st1" "drange s3 = drange st1"
        using k3 t d by (simp_all add: keeps_def walk_view_def)
      ultimately show "\<exists>ys'. walk_at b0 h0 S s3 ys' rem \<and> tmprange s3 = tmprange st1 \<and>
                  drange s3 = drange st1 \<and>
                  cov (map snd ys') \<subseteq> cov (map snd ys) \<union> {unat cs ..< unat cs + unat cz} \<and>
                  cov (map snd ys) \<union> {unat cs ..< unat cs + unat cz} \<subseteq> cov (map snd ys') \<union> M"
        using c by auto
    qed
    show "ensures (if changed > 1 \<and> nhf
                       then add_to_hashmap e (ucast cs) cz None st2
                       else Some (Done () st2))
     (\<lambda>u st'. \<exists>ys'. walk_at b0 h0 S st' ys' rem \<and> tmprange st' = tmprange st1 \<and>
                  drange st' = drange st1 \<and>
                  cov (map snd ys') \<subseteq> cov (map snd ys) \<union> {unat cs ..< unat cs + unat cz} \<and>
                  cov (map snd ys) \<union> {unat cs ..< unat cs + unat cz} \<subseteq> cov (map snd ys') \<union> M)
     (frame_ok b0 h0 S)"
    proof (cases "changed > 1 \<and> nhf")
      case False
      then have eq: "(changed > 1 \<and> nhf) = False" by simp
      show ?thesis using k[of st2] by (simp add: eq)
    next
      case True
      have "ensures (add_to_hashmap e (ucast cs) cz None st2)
         (\<lambda>u st'. \<exists>ys'. walk_at b0 h0 S st' ys' rem \<and> tmprange st' = tmprange st1 \<and>
                  drange st' = drange st1 \<and>
                  cov (map snd ys') \<subseteq> cov (map snd ys) \<union> {unat cs ..< unat cs + unat cz} \<and>
                  cov (map snd ys) \<union> {unat cs ..< unat cs + unat cz} \<subseteq> cov (map snd ys') \<union> M)
         (frame_ok b0 h0 S)"
        apply (rule ensures_weaken[OF add_to_hashmap_keeps])
         apply (erule k)
        apply (erule frame_ok_keeps[OF walk_at_frame_ok[OF w2]])
        done
      then show ?thesis using True by simp
    qed
  qed
  then show ?thesis using False by simp
qed

lemma updown: "unat (x :: u64) < 4294967296 \<Longrightarrow> (ucast (ucast x :: u32) :: u64) = x"
  by (simp add: word_unat_eq_iff unat_ucast_up down32)

lemma covered_step:
  fixes st :: "'fx hstate" and changed :: int
  assumes g: "walk_ok b0 h0 C0 M S st" and hs: "hsmall hreg"
    and m: "changed = 0 \<longrightarrow> hsectors hreg \<subseteq> M" and dr: "drange st = Tmprange"
    and k: "\<And>s'. walk_ok b0 h0 C0 M S s' \<Longrightarrow> ensures (k s') (\<lambda>u. walk_ok b0 h0 C0 M S) (frame_ok b0 h0 S)"
  shows "ensures
     (obind (Some (deref_drange st))
        (\<lambda>d st0.
           if \<not> r_start d < hr_start hreg + ucast (hr_size hreg) then Some (Done () st0)
           else
             let curstart = (ucast (r_start d) :: u32);
                 curend0 = curstart + ucast (r_size d);
                 hregstart = (ucast (hr_start hreg) :: u32);
                 hregend = hregstart + hr_size hreg;
                 curend = (if curend0 > hregend then hregend else curend0)
             in obind (Some (if curend0 > hregend
                             then assign_drange
                                    (d\<lparr>r_start := ucast hregend,
                                       r_size := ucast (curend0 - hregend)\<rparr>) st0
                             else Done () st0))
                  (\<lambda>u st1.
                     if \<not> curstart \<ge> hregstart \<or> \<not> curend \<le> hregend then Some (Abort Assert)
                     else obind (if changed \<noteq> 0
                                 then obind (Some (add_to_range e curstart (curend - curstart) st1))
                                        (\<lambda>u st2.
                                           if changed > 1 \<and> nhf
                                           then add_to_hashmap e (ucast curstart)
                                                  (curend - curstart) None st2
                                           else Some (Done () st2))
                                 else Some (Done () st1))
                            (\<lambda>u st3. obind (Some (deref_drange st3))
                               (\<lambda>d3 st4.
                                  if ucast curstart = r_start d3
                                  then obind (Some (next_drange st4))
                                         (\<lambda>u st5. k st5)
                                  else k st4)))))
     (\<lambda>u. walk_ok b0 h0 C0 M S) (frame_ok b0 h0 S)"
proof -
  let ?s = "r_start (tmprange st)" and ?z = "r_size (tmprange st)"
  let ?cs = "ucast ?s :: u32"
  let ?ce0 = "?cs + ucast ?z"
  let ?hst = "ucast (hr_start hreg) :: u32"
  let ?he = "?hst + hr_size hreg"
  let ?D = "\<lambda>(u :: unit). walk_ok b0 h0 C0 M S"
  from g obtain ys rem where w: "walk_at b0 h0 S st ys rem"
    and c: "C0 \<subseteq> cov (map snd ys) \<union> M \<union> cov rem" "cov (map snd ys) \<union> cov rem \<subseteq> C0"
    unfolding walk_ok_walk_at by blast
  from walk_at_Cons[OF w] dr obtain rem' where rem: "rem = (?s, ?z) # rem'"
    by auto
  have sz: "unat ?s + unat ?z < 4294967296" using w by (simp add: walk_at_def rem small_alt)
  have hk: "unat (hr_start hreg) + unat (hr_size hreg) < 4294967296" using hs by (simp add: hsmall_alt)
  have u1: "unat ?cs = unat ?s" using sz by (simp add: down32)
  have uz: "unat (ucast ?z :: u32) = unat ?z" using sz by (simp add: down32)
  have u2: "unat ?ce0 = unat ?s + unat ?z" using sz by (simp add: unat_add32 u1 uz)
  have u3: "unat ?hst = unat (hr_start hreg)" using hk by (simp add: down32)
  have u4: "unat ?he = unat (hr_start hreg) + unat (hr_size hreg)" using hk by (simp add: unat_add32 u3)
  have u5: "unat (hr_start hreg + ucast (hr_size hreg)) = unat (hr_start hreg) + unat (hr_size hreg)"
    using hk by (simp add: unat_add64 unat_ucast_up)
  have ud: "(ucast ?cs :: u64) = ?s" using sz by (simp add: updown)
  show ?thesis
  proof (cases "?s < hr_start hreg + ucast (hr_size hreg)")
    case False
    then show ?thesis using g dr by simp
  next
    case c1: True
    then have lt: "unat ?s < unat (hr_start hreg) + unat (hr_size hreg)"
      by (simp add: word_less_nat_alt u5)
    show ?thesis
    proof (cases "?hst \<le> ?cs")
      case False
      then show ?thesis using dr c1 by (simp add: Let_def)
    next
      case c2: True
      then have ge: "unat (hr_start hreg) \<le> unat ?s" by (simp add: word_le_nat_alt u1 u3)
      show ?thesis
      proof (cases "?he < ?ce0")
        case cB: False
        then have le: "unat ?s + unat ?z \<le> unat (hr_start hreg) + unat (hr_size hreg)"
          by (simp add: word_less_nat_alt u2 u4)
        have pz: "unat (?ce0 - ?cs) = unat ?z"
          by (simp add: uz)
        have n: "unat ?cs + unat (?ce0 - ?cs) < 4294967296" using sz by (simp add: uz u1)
        have mm: "changed = 0 \<longrightarrow> {unat ?cs ..< unat ?cs + unat (?ce0 - ?cs)} \<subseteq> M"
          using m ge le by (auto simp: hsectors_def uz u1)
        have "ensures
           (obind (if changed \<noteq> 0
                   then obind (Some (add_to_range e ?cs (?ce0 - ?cs) st))
                          (\<lambda>u st2. if changed > 1 \<and> nhf
                                    then add_to_hashmap e (ucast ?cs) (?ce0 - ?cs) None st2
                                    else Some (Done () st2))
                   else Some (Done () st))
              (\<lambda>u st3. obind (Some (deref_drange st3))
                  (\<lambda>d3 st4. if ucast ?cs = r_start d3
                             then obind (Some (next_drange st4)) (\<lambda>u st5. k st5)
                             else k st4)))
           ?D (frame_ok b0 h0 S)"
        proof (rule ensures_obind2[OF piece_ensures[OF w n mm]], assumption, elim exE conjE)
          fix v and st3 :: "'fx hstate" and ys'
          assume w3: "walk_at b0 h0 S st3 ys' rem" and t3: "tmprange st3 = tmprange st"
            and d3: "drange st3 = drange st"
            and c3: "cov (map snd ys') \<subseteq> cov (map snd ys) \<union> {unat ?cs ..< unat ?cs + unat (?ce0 - ?cs)}"
              "cov (map snd ys) \<union> {unat ?cs ..< unat ?cs + unat (?ce0 - ?cs)} \<subseteq> cov (map snd ys') \<union> M"
          have "ensures (obind (Some (next_drange st3)) (\<lambda>u st5. k st5)) ?D (frame_ok b0 h0 S)"
          proof (rule ensures_obind2[OF next_walk_at[OF w3[unfolded rem]]])
            fix s5 :: "'fx hstate" assume False then show "frame_ok b0 h0 S s5" by simp
          next
            fix u and s5 :: "'fx hstate" assume w5: "walk_at b0 h0 S s5 ys' rem'"
            have "walk_ok b0 h0 C0 M S s5"
              unfolding walk_ok_walk_at
              apply (rule exI[where x=ys'])
              apply (rule exI[where x=rem'])
              using w5 c c3 by (auto simp: rem sectors_alt uz u1)
            then show "ensures (k s5) ?D (frame_ok b0 h0 S)" by (rule k)
          qed
          then show "ensures (obind (Some (deref_drange st3))
                  (\<lambda>d3 st4. if ucast ?cs = r_start d3
                             then obind (Some (next_drange st4)) (\<lambda>u st5. k st5)
                             else k st4)) ?D (frame_ok b0 h0 S)"
            using d3 dr t3 by (simp add: ud)
        qed
        moreover have cB': "?ce0 \<le> ?he" using cB by simp
        ultimately show ?thesis
          unfolding Let_def
          by (simp only: deref_Tmprange[OF dr] obind_simps c1 c2 cB cB' if_True if_False
              simp_thms)
      next
        case cA: True
        then have gt: "unat (hr_start hreg) + unat (hr_size hreg) < unat ?s + unat ?z"
          by (simp add: word_less_nat_alt u2 u4)
        let ?a = "ucast ?he :: u64" and ?b = "ucast (?ce0 - ?he) :: u64"
        let ?st1 = "st\<lparr>tmprange := (tmprange st)\<lparr>r_start := ?a, r_size := ?b\<rparr>\<rparr>"
        have ua: "unat ?a = unat (hr_start hreg) + unat (hr_size hreg)"
          by (simp add: unat_ucast_up u4)
        have ub: "unat ?b = unat ?s + unat ?z - (unat (hr_start hreg) + unat (hr_size hreg))"
          using gt by (simp add: unat_ucast_up unat_sub32 u2 u4)
        have sm: "small (?a, ?b)" using gt sz by (simp add: small_alt ua ub)
        have w1: "walk_at b0 h0 S ?st1 ys ((?a, ?b) # rem')"
          by (rule assign_walk_at[OF w[unfolded rem] sm])
        have pz: "unat (?he - ?cs) = unat (hr_start hreg) + unat (hr_size hreg) - unat ?s"
          using lt by (simp add: unat_sub32 u1 u4)
        have n: "unat ?cs + unat (?he - ?cs) < 4294967296" using lt hk by (simp add: pz u1)
        have mm: "changed = 0 \<longrightarrow> {unat ?cs ..< unat ?cs + unat (?he - ?cs)} \<subseteq> M"
          using m ge lt by (auto simp: hsectors_def pz u1)
        have ne: "(ucast ?cs :: u64) \<noteq> ?a"
          using lt by (simp add: word_unat_eq_iff ua ud)
        have "ensures
           (obind (if changed \<noteq> 0
                   then obind (Some (add_to_range e ?cs (?he - ?cs) ?st1))
                          (\<lambda>u st2. if changed > 1 \<and> nhf
                                    then add_to_hashmap e (ucast ?cs) (?he - ?cs) None st2
                                    else Some (Done () st2))
                   else Some (Done () ?st1))
              (\<lambda>u st3. obind (Some (deref_drange st3))
                  (\<lambda>d3 st4. if ucast ?cs = r_start d3
                             then obind (Some (next_drange st4)) (\<lambda>u st5. k st5)
                             else k st4)))
           ?D (frame_ok b0 h0 S)"
        proof (rule ensures_obind2[OF piece_ensures[OF w1 n mm]], assumption, elim exE conjE)
          fix v and st3 :: "'fx hstate" and ys'
          assume w3: "walk_at b0 h0 S st3 ys' ((?a, ?b) # rem')" and t3: "tmprange st3 = tmprange ?st1"
            and d3: "drange st3 = drange ?st1"
            and c3: "cov (map snd ys') \<subseteq> cov (map snd ys) \<union> {unat ?cs ..< unat ?cs + unat (?he - ?cs)}"
              "cov (map snd ys) \<union> {unat ?cs ..< unat ?cs + unat (?he - ?cs)} \<subseteq> cov (map snd ys') \<union> M"
          have R: "sectors (?s, ?z) =
                     {unat ?cs ..< unat ?cs + unat (?he - ?cs)} \<union> sectors (?a, ?b)"
            using lt gt by (auto simp: sectors_alt pz u1 ua ub)
          have "C0 \<subseteq> cov (map snd ys') \<union> M \<union> cov ((?a, ?b) # rem') \<and>
                cov (map snd ys') \<union> cov ((?a, ?b) # rem') \<subseteq> C0"
            using c c3 unfolding rem cov_Cons R by blast
          then have "walk_ok b0 h0 C0 M S st3"
            unfolding walk_ok_walk_at using w3 by blast
          then have "ensures (k st3) ?D (frame_ok b0 h0 S)" by (rule k)
          then show "ensures (obind (Some (deref_drange st3))
                  (\<lambda>d3 st4. if ucast ?cs = r_start d3
                             then obind (Some (next_drange st4)) (\<lambda>u st5. k st5)
                             else k st4)) ?D (frame_ok b0 h0 S)"
            using d3 dr t3 ne by (simp add: ud)
        qed
        then show ?thesis
          unfolding Let_def
          by (simp only: deref_Tmprange[OF dr] assign_Tmprange[OF dr] obind_simps c1 c2 cA
              order_refl if_True if_False simp_thms)
      qed
    qed
  qed
qed

lemma covered_loop_walk_ok:
  fixes st :: "'fx hstate"
  assumes r: "covered_loop e nhf hreg changed st = Some r" and g: "walk_ok b0 h0 C0 M S st"
    and hs: "hsmall hreg" and m: "changed = 0 \<longrightarrow> hsectors hreg \<subseteq> M"
  shows "ensures (Some r) (\<lambda>u. walk_ok b0 h0 C0 M S) (frame_ok b0 h0 S)"
  using r g hs m
proof (induction rule: covered_loop.raw_induct[rotated, consumes 1, case_names step])
  case (step loop e nhf hreg changed st r)
  have ih: "\<And>s. walk_ok b0 h0 C0 M S s \<Longrightarrow>
              ensures (loop e nhf hreg changed s) (\<lambda>u. walk_ok b0 h0 C0 M S) (frame_ok b0 h0 S)"
    by (rule ensures_opt) (rule step.IH[OF _ _ step.prems(2,3)])
  from step.prems(1) obtain ys rem where w: "walk_at b0 h0 S st ys rem"
    unfolding walk_ok_walk_at by blast
  show ?case
  proof (cases "drange st = Null")
    case True
    with step.hyps step.prems show ?thesis by auto
  next
    case False
    with walk_at_Cons[OF w] have dr: "drange st = Tmprange" by blast
    note X = covered_step[where e=e and nhf=nhf and k="loop e nhf hreg changed",
        OF step.prems(1) step.prems(2) step.prems(3) dr ih]
    show ?thesis using step.hyps X by (simp only: False if_False)
  qed
qed

lemma walk_ok_drange: "walk_ok b0 h0 C0 M S st \<Longrightarrow> drange st = Null \<or> drange st = Tmprange"
  unfolding walk_ok_walk_at using walk_at_drange by blast

lemma walk_ok_small:
  "walk_ok b0 h0 C0 M S st \<Longrightarrow> drange st = Tmprange \<Longrightarrow>
   unat (r_start (tmprange st)) + unat (r_size (tmprange st)) < 4294967296"
  unfolding walk_ok_walk_at by (auto simp: walk_at_def remaining_def small_alt)

lemma walk_ok_statics: "walk_ok b0 h0 C0 M S st \<Longrightarrow> statics st = S"
  by (simp add: walk_ok_def)

lemma statics_hash: "statics st = statics st' \<Longrightarrow> hashfunc st = hashfunc st' \<and> hashlen st = hashlen st'"
  by (simp add: statics_def)

lemma hreg_overlap_walk_ok:
  fixes st :: "'fx hstate"
  assumes g: "walk_ok b0 h0 C0 M S st" and hs: "hsmall hreg"
    and mt: "disk_hash_matches e (hashfunc st) (hashlen st) hreg \<longrightarrow> hsectors hreg \<subseteq> M"
    and dr: "drange st = Tmprange"
    and pre: "unat (hr_start hreg) < unat (r_start (tmprange st)) + unat (r_size (tmprange st))"
  shows "ensures (hreg_overlap e nhf hreg st) (\<lambda>b. walk_ok b0 h0 C0 M S) (frame_ok b0 h0 S)"
  unfolding hreg_overlap_def
proof (rule ensures_obind2[OF head_split_walk_ok[OF g hs dr pre]], assumption)
  fix v and st2 :: "'fx hstate" assume g2: "walk_ok b0 h0 C0 M S st2"
  have h2: "hashfunc st2 = hashfunc st" "hashlen st2 = hashlen st"
    using statics_hash[of st2 st] walk_ok_statics[OF g] walk_ok_statics[OF g2] by simp_all
  show "ensures (obind (overlap_decision e nhf hreg st2)
          (\<lambda>changed st3.
             if drange st3 = Null then Some (Abort Assert)
             else obind (Some (deref_drange st3))
               (\<lambda>d3 st3a.
                  if \<not> r_start d3 < hr_start hreg + ucast (hr_size hreg) then Some (Abort Assert)
                  else obind (covered_loop e nhf hreg changed st3a)
                    (\<lambda>u st4.
                       if drange st4 = Null then Some (Done True st4)
                       else obind (Some (deref_drange st4))
                         (\<lambda>d4 st4a.
                            if \<not> r_start d4 \<ge> hr_start hreg + ucast (hr_size hreg)
                            then Some (Abort Assert)
                            else Some (Done False st4a))))))
         (\<lambda>b. walk_ok b0 h0 C0 M S) (frame_ok b0 h0 S)"
  proof (rule ensures_obind2[OF overlap_decision_walk_ok[OF g2]], assumption, elim conjE)
    fix changed :: int and st3 :: "'fx hstate"
    assume g3: "walk_ok b0 h0 C0 M S st3"
      and ch: "changed = 0 \<longrightarrow> disk_hash_matches e (hashfunc st2) (hashlen st2) hreg"
    have m: "changed = 0 \<longrightarrow> hsectors hreg \<subseteq> M" using ch mt by (simp add: h2)
    have cl: "ensures (covered_loop e nhf hreg changed st3) (\<lambda>u. walk_ok b0 h0 C0 M S) (frame_ok b0 h0 S)"
      by (rule ensures_opt) (rule covered_loop_walk_ok[OF _ g3 hs m])
    have fin: "\<And>st4 :: 'fx hstate. walk_ok b0 h0 C0 M S st4 \<Longrightarrow>
       ensures (if drange st4 = Null then Some (Done True st4)
                else obind (Some (deref_drange st4))
                       (\<lambda>d4 st4a.
                            if \<not> r_start d4 \<ge> hr_start hreg + ucast (hr_size hreg)
                            then Some (Abort Assert)
                            else Some (Done False st4a)))
         (\<lambda>b. walk_ok b0 h0 C0 M S) (frame_ok b0 h0 S)"
    proof -
      fix st4 :: "'fx hstate" assume g4: "walk_ok b0 h0 C0 M S st4"
      from walk_ok_drange[OF g4] show "ensures (if drange st4 = Null then Some (Done True st4)
                else obind (Some (deref_drange st4))
                       (\<lambda>d4 st4a.
                            if \<not> r_start d4 \<ge> hr_start hreg + ucast (hr_size hreg)
                            then Some (Abort Assert)
                            else Some (Done False st4a)))
         (\<lambda>b. walk_ok b0 h0 C0 M S) (frame_ok b0 h0 S)"
        using g4 by auto
    qed
    from walk_ok_drange[OF g3]
    show "ensures (if drange st3 = Null then Some (Abort Assert)
             else obind (Some (deref_drange st3))
               (\<lambda>d3 st3a.
                  if \<not> r_start d3 < hr_start hreg + ucast (hr_size hreg) then Some (Abort Assert)
                  else obind (covered_loop e nhf hreg changed st3a)
                    (\<lambda>u st4.
                       if drange st4 = Null then Some (Done True st4)
                       else obind (Some (deref_drange st4))
                         (\<lambda>d4 st4a.
                            if \<not> r_start d4 \<ge> hr_start hreg + ucast (hr_size hreg)
                            then Some (Abort Assert)
                            else Some (Done False st4a)))))
         (\<lambda>b. walk_ok b0 h0 C0 M S) (frame_ok b0 h0 S)"
    proof
      assume "drange st3 = Null" then show ?thesis by simp
    next
      assume d3: "drange st3 = Tmprange"
      show ?thesis
      proof (cases "r_start (tmprange st3) < hr_start hreg + ucast (hr_size hreg)")
        case False
        then show ?thesis using d3 by simp
      next
        case True
        have "ensures (obind (covered_loop e nhf hreg changed st3)
                    (\<lambda>u st4.
                       if drange st4 = Null then Some (Done True st4)
                       else obind (Some (deref_drange st4))
                         (\<lambda>d4 st4a.
                            if \<not> r_start d4 \<ge> hr_start hreg + ucast (hr_size hreg)
                            then Some (Abort Assert)
                            else Some (Done False st4a))))
         (\<lambda>b. walk_ok b0 h0 C0 M S) (frame_ok b0 h0 S)"
          by (rule ensures_obind2[OF cl]) (assumption, erule fin)
        then show ?thesis using d3 True
          by (simp only: deref_Tmprange[OF d3] obind_simps if_True if_False rptr.distinct
              simp_thms)
      qed
    qed
  qed
qed

lemma hreg_body_walk_ok:
  fixes st :: "'fx hstate"
  assumes g: "walk_ok b0 h0 C0 M S st" and hs: "hsmall hreg"
    and mt: "disk_hash_matches e (hashfunc st) (hashlen st) hreg \<longrightarrow> hsectors hreg \<subseteq> M"
  shows "ensures (hreg_body e nhf hreg st) (\<lambda>b. walk_ok b0 h0 C0 M S) (frame_ok b0 h0 S)"
proof -
  have fin: "\<And>st1 :: 'fx hstate. walk_ok b0 h0 C0 M S st1 \<Longrightarrow>
     ensures (if drange st1 = Null then Some (Done True st1)
                else obind (Some (deref_drange st1))
                  (\<lambda>d1 st1a.
                     if \<not> hr_start hreg < r_start d1 + r_size d1 then Some (Abort Assert)
                     else if hr_start hreg + ucast (hr_size hreg) \<le> r_start d1
                       then Some (Done False st1a)
                     else hreg_overlap e nhf hreg st1a))
       (\<lambda>b. walk_ok b0 h0 C0 M S) (frame_ok b0 h0 S)"
  proof -
    fix st1 :: "'fx hstate" assume g1: "walk_ok b0 h0 C0 M S st1"
    have h1: "hashfunc st1 = hashfunc st" "hashlen st1 = hashlen st"
      using statics_hash[of st1 st] walk_ok_statics[OF g] walk_ok_statics[OF g1] by simp_all
    from walk_ok_drange[OF g1]
    show "ensures (if drange st1 = Null then Some (Done True st1)
                else obind (Some (deref_drange st1))
                  (\<lambda>d1 st1a.
                     if \<not> hr_start hreg < r_start d1 + r_size d1 then Some (Abort Assert)
                     else if hr_start hreg + ucast (hr_size hreg) \<le> r_start d1
                       then Some (Done False st1a)
                     else hreg_overlap e nhf hreg st1a))
       (\<lambda>b. walk_ok b0 h0 C0 M S) (frame_ok b0 h0 S)"
    proof
      assume "drange st1 = Null" then show ?thesis using g1 by simp
    next
      assume d1: "drange st1 = Tmprange"
      note sm = walk_ok_small[OF g1 d1]
      show ?thesis
      proof (cases "hr_start hreg < r_start (tmprange st1) + r_size (tmprange st1)")
        case False
        then show ?thesis using d1 by simp
      next
        case True
        then have pre: "unat (hr_start hreg) < unat (r_start (tmprange st1)) + unat (r_size (tmprange st1))"
          using sm by (simp add: word_less_nat_alt unat_add64)
        have "ensures (hreg_overlap e nhf hreg st1) (\<lambda>b. walk_ok b0 h0 C0 M S) (frame_ok b0 h0 S)"
          by (rule hreg_overlap_walk_ok[OF g1 hs _ d1 pre]) (simp add: h1 mt)
        then show ?thesis using d1 True g1 by simp
      qed
    qed
  qed
  from walk_ok_drange[OF g] show ?thesis
  proof
    assume "drange st = Null" then show ?thesis by (simp add: hreg_body_def)
  next
    assume dr: "drange st = Tmprange"
    show ?thesis
    proof (cases "r_size (tmprange st) > 0")
      case False
      then show ?thesis using dr by (simp add: hreg_body_def)
    next
      case True
      have pl: "ensures (pre_hreg_loop e nhf hreg st) (\<lambda>u. walk_ok b0 h0 C0 M S) (frame_ok b0 h0 S)"
        by (rule ensures_opt) (rule pre_hreg_loop_walk_ok[OF _ g])
      have "ensures (obind (pre_hreg_loop e nhf hreg st)
             (\<lambda>u st1.
                if drange st1 = Null then Some (Done True st1)
                else obind (Some (deref_drange st1))
                  (\<lambda>d1 st1a.
                     if \<not> hr_start hreg < r_start d1 + r_size d1 then Some (Abort Assert)
                     else if hr_start hreg + ucast (hr_size hreg) \<le> r_start d1
                       then Some (Done False st1a)
                     else hreg_overlap e nhf hreg st1a)))
          (\<lambda>b. walk_ok b0 h0 C0 M S) (frame_ok b0 h0 S)"
        by (rule ensures_obind2[OF pl]) (assumption, erule fin)
      then show ?thesis
        unfolding hreg_body_def using dr True
        by (simp only: deref_Tmprange[OF dr] obind_simps if_True if_False rptr.distinct
              simp_thms)
    qed
  qed
qed

lemma hreg_loop_walk_ok:
  fixes st :: "'fx hstate"
  assumes g: "walk_ok b0 h0 C0 M S st"
    and hs: "\<forall>hreg \<in> set hregs. hsmall hreg"
    and mt: "\<forall>hreg \<in> set hregs.
               disk_hash_matches e (hashfunc st) (hashlen st) hreg \<longrightarrow> hsectors hreg \<subseteq> M"
  shows "ensures (hreg_loop e nhf hregs st) (\<lambda>b. walk_ok b0 h0 C0 M S) (frame_ok b0 h0 S)"
  using g hs mt
proof (induction hregs arbitrary: st)
  case Nil
  then show ?case by simp
next
  case (Cons hreg hregs)
  have b: "ensures (hreg_body e nhf hreg st) (\<lambda>b. walk_ok b0 h0 C0 M S) (frame_ok b0 h0 S)"
    by (rule hreg_body_walk_ok[OF Cons.prems(1)]) (use Cons.prems in simp_all)
  show ?case
  proof (cases "hreg_body e nhf hreg st")
    case None
    then show ?thesis by simp
  next
    case (Some r)
    show ?thesis
    proof (cases r)
      case (Abort a)
      then show ?thesis using Some by simp
    next
      case (Failed s)
      then show ?thesis using Some b by simp
    next
      case (Done left st1)
      then have g1: "walk_ok b0 h0 C0 M S st1" using Some b by simp
      have h1: "hashfunc st1 = hashfunc st" "hashlen st1 = hashlen st"
        using statics_hash[of st1 st] walk_ok_statics[OF Cons.prems(1)] walk_ok_statics[OF g1] by simp_all
      have "ensures (hreg_loop e nhf hregs st1) (\<lambda>b. walk_ok b0 h0 C0 M S) (frame_ok b0 h0 S)"
        by (rule Cons.IH[OF g1]) (use Cons.prems in \<open>simp_all add: h1\<close>)
      then show ?thesis using Some Done g1 by simp
    qed
  qed
qed

lemma delta_walk_walk_ok:
  fixes st :: "'fx hstate"
  assumes g: "walk_ok b0 h0 C0 M S st"
    and hs: "\<forall>hreg \<in> set (case hinfo st of None \<Rightarrow> [] | Some hi \<Rightarrow> regions hi). hsmall hreg"
    and M: "M = matched e (hashfunc st) (hashlen st) (case hinfo st of None \<Rightarrow> [] | Some hi \<Rightarrow> regions hi)"
  shows "ensures (delta_walk e nhf st) (\<lambda>u st'. walk_ok b0 h0 C0 M S st' \<and> drange st' = Null) (frame_ok b0 h0 S)"
  unfolding delta_walk_def
proof (rule ensures_obind2[OF hreg_loop_walk_ok[OF g hs]])
  show "\<forall>hreg \<in> set (case hinfo st of None \<Rightarrow> [] | Some hi \<Rightarrow> regions hi).
          disk_hash_matches e (hashfunc st) (hashlen st) hreg \<longrightarrow> hsectors hreg \<subseteq> M"
    unfolding M matched_def by blast
next
  fix s :: "'fx hstate" assume "frame_ok b0 h0 S s" then show "frame_ok b0 h0 S s" .
next
  fix v and s :: "'fx hstate" assume g1: "walk_ok b0 h0 C0 M S s"
  show "ensures (final_loop e nhf v s) (\<lambda>u st'. walk_ok b0 h0 C0 M S st' \<and> drange st' = Null) (frame_ok b0 h0 S)"
    by (rule ensures_opt) (rule final_loop_walk_ok[OF _ g1])
qed

subsection \<open>The frame of the walk, its start and its end\<close>

text \<open>
  Without any condition on the ranges, every step of the walk leaves the caller's heap
  and the fixed part alone, whether it succeeds or fails.
\<close>

lemma readhashinfo_view:
  "readhashinfo e file st = Done hi st1 \<Longrightarrow>
   heap st1 = heap st \<and> brk st1 = brk st \<and> tmprange st1 = tmprange st \<and>
   call_log st1 = call_log st \<and> fx st1 = fx st"
  by (auto simp: readhashinfo_def Let_def split: if_splits option.splits)

lemma old_signature_view:
  "old_signature e hfile st = Done hi st1 \<Longrightarrow>
   heap st1 = heap st \<and> brk st1 = brk st \<and> tmprange st1 = tmprange st \<and>
   call_log st1 = call_log st \<and> fx st1 = fx st"
  using readhashinfo_view[of e _ st hi st1]
  by (auto simp: old_signature_def Let_def split: if_splits option.splits)

lemma select_hash_view:
  "heap (select_hash hi st) = heap st \<and> brk (select_hash hi st) = brk st \<and>
   tmprange (select_hash hi st) = tmprange st \<and> call_log (select_hash hi st) = call_log st \<and>
   fx (select_hash hi st) = fx st"
  by (cases "hi_hashtype hi") (simp_all add: select_hash_def)

lemma delta_setup_Node:
  assumes "delta_setup e (Node a) hfile infd ssect nhf st = Done u st1"
  shows "heap st1 = heap st \<and> brk st1 = brk st \<and>
         dummy_head st1 = \<lparr>r_start = - 1, r_size = 0, r_next = Null\<rparr> \<and>
         range_tail st1 = Dummy_head \<and> drange st1 = Tmprange \<and>
         heap st a = Some (tmprange st1) \<and>
         call_log st1 = call_log st @ (if nhf then [Savefixups] else [])"
proof -
  from assms obtain hi s1 where
    rd: "old_signature e hfile (st\<lparr>imagefd := infd, poffset := ssect\<rparr>) = Done hi s1"
    unfolding delta_setup_def
    by (cases "old_signature e hfile (st\<lparr>imagefd := infd, poffset := ssect\<rparr>)") simp_all
  note v = old_signature_view[OF rd] select_hash_view[of hi s1]
  from assms have "COPYRANGE (Node a)
      (let st3 = (select_hash hi s1)\<lparr>hinfo := Some hi,
                             dummy_head := \<lparr>r_start = - 1, r_size = 0, r_next = Null\<rparr>,
                             range_tail := Dummy_head\<rparr>
       in if nhf then st3\<lparr>fx := e_savefixups e (fx st3), call_log := call_log st3 @ [Savefixups]\<rparr>
          else st3) = Done u st1"
    unfolding delta_setup_def by (simp add: rd Let_def)
  then show ?thesis
    using v by (auto simp: COPYRANGE_def rd_range_def Let_def split: if_splits option.splits)
qed

lemma delta_finish_Done:
  "delta_finish e nhf st2 = Done nr st' \<Longrightarrow>
   nr = r_next (dummy_head st2) \<and> heap st' = heap st2 \<and> hinfo st' = hinfo st2 \<and>
   hashfunc st' = hashfunc st2 \<and> hashlen st' = hashlen st2"
  by (auto simp: delta_finish_def Let_def split: if_splits)

lemma path_allocated: "path h p xs q \<Longrightarrow> \<forall>a \<in> fst ` set xs. h a \<noteq> None"
  by (induction xs arbitrary: p) (auto split: option.splits)

lemma frames_obind:
  "frames b0 h0 S m \<Longrightarrow> (\<And>v s. frame_ok b0 h0 S s \<Longrightarrow> frames b0 h0 S (f v s)) \<Longrightarrow>
   frames b0 h0 S (obind m f)"
  unfolding frames_def
  by (rule ensures_obind2[where ?D1.0="\<lambda>v. frame_ok b0 h0 S" and ?F1.0="frame_ok b0 h0 S"]) auto

lemma frames_if:
  "(c \<Longrightarrow> frames b0 h0 S a) \<Longrightarrow> (\<not> c \<Longrightarrow> frames b0 h0 S b) \<Longrightarrow>
   frames b0 h0 S (if c then a else b)"
  by simp

lemma frames_Some_if:
  "(c \<Longrightarrow> frames b0 h0 S (Some a)) \<Longrightarrow> (\<not> c \<Longrightarrow> frames b0 h0 S (Some b)) \<Longrightarrow>
   frames b0 h0 S (Some (if c then a else b))"
  by simp

lemma frames_Done: "frame_ok b0 h0 S s \<Longrightarrow> frames b0 h0 S (Some (Done v s))"
  by (simp add: frames_def)

lemma frames_Abort: "frames b0 h0 S (Some (Abort a))"
  by (simp add: frames_def)

lemma frames_opt: "(\<And>y. m = Some y \<Longrightarrow> frames b0 h0 S (Some y)) \<Longrightarrow> frames b0 h0 S m"
  unfolding frames_def by (rule ensures_opt)

lemma frame_ok_drange: "frame_ok b0 h0 S st \<Longrightarrow> drange st = Null \<or> drange st = Tmprange"
  by (simp add: frame_ok_def framed_def)

lemma frame_ok_tmprange: "frame_ok b0 h0 S st \<Longrightarrow> frame_ok b0 h0 S (st\<lparr>tmprange := r\<rparr>)"
  by (simp add: frame_ok_def framed_def outlist_def statics_def)

lemma frame_ok_Null: "frame_ok b0 h0 S st \<Longrightarrow> frame_ok b0 h0 S (st\<lparr>drange := Null\<rparr>)"
  by (simp add: frame_ok_def framed_def outlist_def statics_def)

lemma frame_ok_copy: "frame_ok b0 h0 S st \<Longrightarrow> frame_ok b0 h0 S (st\<lparr>tmprange := r, drange := Tmprange\<rparr>)"
  by (simp add: frame_ok_def framed_def outlist_def statics_def)

lemma frames_deref: "frame_ok b0 h0 S st \<Longrightarrow> frames b0 h0 S (Some (deref_drange st))"
  using frame_ok_drange[of b0 h0 S st] by (auto simp: frames_def)

lemma frames_assign: "frame_ok b0 h0 S st \<Longrightarrow> frames b0 h0 S (Some (assign_drange r st))"
  using frame_ok_drange[of b0 h0 S st] frame_ok_tmprange[of b0 h0 S st r]
  by (auto simp: frames_def assign_drange_def wr_range_def)

lemma frames_next: "frame_ok b0 h0 S st \<Longrightarrow> frames b0 h0 S (Some (next_drange st))"
  using frame_ok_drange[of b0 h0 S st] frame_ok_Null[of b0 h0 S st] frame_ok_copy[of b0 h0 S st]
  by (auto simp: frames_def next_drange_def COPYRANGE_def rd_range_def
      split: option.splits if_splits)

lemma frames_add_to_hashmap: "frame_ok b0 h0 S st \<Longrightarrow> frames b0 h0 S (add_to_hashmap e a b c st)"
  unfolding frames_def
  by (rule ensures_weaken[OF add_to_hashmap_keeps]) (erule (1) frame_ok_keeps)+

lemma frames_hash_and_cmp: "frame_ok b0 h0 S st \<Longrightarrow> frames b0 h0 S (Some (hash_and_cmp e hreg st))"
proof -
  assume b: "frame_ok b0 h0 S st"
  have "\<And>v s. hash_and_cmp e hreg st = Done v s \<or> hash_and_cmp e hreg st = Failed s \<Longrightarrow> keeps st s"
    using hash_range_keeps[of e "hr_start hreg" "hr_size hreg" st]
    by (auto simp: hash_and_cmp_def keeps_def split: if_splits outcome.splits)
  then show ?thesis
    unfolding frames_def using frame_ok_keeps[OF b] by (intro ensuresI) auto
qed

lemma frames_add_to_range:
  assumes b: "frame_ok b0 h0 S st"
  shows "frames b0 h0 S (Some (add_to_range e s z st))"
  unfolding frames_def
proof (rule ensuresI)
  fix st' assume "Some (add_to_range e s z st) = Some (Failed st')"
  then have "keeps st st'" using add_to_range_failed[of e s z st st'] by (simp add: keeps_def)
  then show "frame_ok b0 h0 S st'" using b frame_ok_keeps by blast
next
  fix v st' assume "Some (add_to_range e s z st) = Some (Done v st')"
  then have d: "add_to_range e s z st = Done v st'" by simp
  from b obtain ys where o: "outlist b0 st ys" and bb: "b0 \<le> brk st"
    and h: "\<forall>a<b0. heap st a = h0 a" and dr: "drange st = Null \<or> drange st = Tmprange"
    and S: "statics st = S"
    by (auto simp: frame_ok_def framed_def)
  have "(\<exists>ys'. outlist b0 st' ys') \<and> (\<forall>a<b0. heap st' a = heap st a) \<and> brk st \<le> brk st' \<and>
        drange st' = drange st \<and> statics st' = statics st"
  proof (cases ys rule: rev_cases)
    case Nil
    from add_to_range_empty[OF o[unfolded Nil] bb d] show ?thesis by blast
  next
    case (snoc ys0 y)
    obtain a s0 z0 where y: "y = (a, s0, z0)" by (cases y)
    from add_to_range_snoc[OF o[unfolded snoc y] bb d] show ?thesis by blast
  qed
  then show "frame_ok b0 h0 S st'"
    using bb h dr S by (auto simp: frame_ok_def framed_def)
qed

lemma frames_hash_new_range: "frame_ok b0 h0 S st \<Longrightarrow> frames b0 h0 S (hash_new_range e nhf szf st)"
  unfolding hash_new_range_def
  by (intro frames_if frames_obind frames_deref frames_add_to_hashmap frames_Done) assumption+

lemmas frames_intros =
  frames_obind frames_if frames_Some_if frames_Done frames_Abort frames_deref frames_assign
  frames_next frames_add_to_hashmap frames_hash_and_cmp frames_add_to_range frames_hash_new_range

lemma pre_hreg_loop_frames:
  fixes st :: "'fx hstate"
  assumes r: "pre_hreg_loop e nhf hreg st = Some r" and g: "frame_ok b0 h0 S st"
  shows "frames b0 h0 S (Some r)"
  using r g
proof (induction rule: pre_hreg_loop.raw_induct[rotated, consumes 1, case_names step])
  case (step loop e nhf hreg st r)
  have ih: "\<And>s. frame_ok b0 h0 S s \<Longrightarrow> frames b0 h0 S (loop e nhf hreg s)"
    by (rule frames_opt) (rule step.IH)
  show ?case
    unfolding step.hyps[symmetric]
    by (intro frames_intros ih step.prems | assumption)+
qed

lemma final_loop_frames:
  fixes st :: "'fx hstate"
  assumes r: "final_loop e nhf at_end st = Some r" and g: "frame_ok b0 h0 S st"
  shows "frames b0 h0 S (Some r)"
  using r g
proof (induction rule: final_loop.raw_induct[rotated, consumes 1, case_names step])
  case (step loop e nhf at_end st r)
  have ih: "\<And>s. frame_ok b0 h0 S s \<Longrightarrow> frames b0 h0 S (loop e nhf at_end s)"
    by (rule frames_opt) (rule step.IH)
  show ?case
    unfolding step.hyps[symmetric]
    by (intro frames_intros ih step.prems | assumption)+
qed

lemma covered_loop_frames:
  fixes st :: "'fx hstate"
  assumes r: "covered_loop e nhf hreg changed st = Some r" and g: "frame_ok b0 h0 S st"
  shows "frames b0 h0 S (Some r)"
  using r g
proof (induction rule: covered_loop.raw_induct[rotated, consumes 1, case_names step])
  case (step loop e nhf hreg changed st r)
  have ih: "\<And>s. frame_ok b0 h0 S s \<Longrightarrow> frames b0 h0 S (loop e nhf hreg changed s)"
    by (rule frames_opt) (rule step.IH)
  show ?case
    unfolding step.hyps[symmetric] Let_def
    by (intro frames_intros ih step.prems | assumption)+
qed

lemma head_split_frames: "frame_ok b0 h0 S st \<Longrightarrow> frames b0 h0 S (head_split e nhf hreg st)"
  unfolding head_split_def Let_def
  by (intro frames_intros | assumption)+

lemma overlap_decision_frames: "frame_ok b0 h0 S st \<Longrightarrow> frames b0 h0 S (overlap_decision e nhf hreg st)"
  unfolding overlap_decision_def
  by (intro frames_intros | assumption)+

lemma covered_loop_frames2: "frame_ok b0 h0 S st \<Longrightarrow> frames b0 h0 S (covered_loop e nhf hreg changed st)"
  by (rule frames_opt) (rule covered_loop_frames)

lemma hreg_overlap_frames: "frame_ok b0 h0 S st \<Longrightarrow> frames b0 h0 S (hreg_overlap e nhf hreg st)"
  unfolding hreg_overlap_def
  by (intro frames_intros head_split_frames overlap_decision_frames covered_loop_frames2 | assumption)+

lemma pre_hreg_loop_frames2: "frame_ok b0 h0 S st \<Longrightarrow> frames b0 h0 S (pre_hreg_loop e nhf hreg st)"
  by (rule frames_opt) (rule pre_hreg_loop_frames)

lemma hreg_body_frames: "frame_ok b0 h0 S st \<Longrightarrow> frames b0 h0 S (hreg_body e nhf hreg st)"
  unfolding hreg_body_def
  by (intro frames_intros pre_hreg_loop_frames2 hreg_overlap_frames | assumption)+

lemma hreg_loop_frames: "frame_ok b0 h0 S st \<Longrightarrow> frames b0 h0 S (hreg_loop e nhf hregs st)"
proof (induction hregs arbitrary: st)
  case Nil
  then show ?case by (simp add: frames_Done)
next
  case (Cons hreg hregs)
  have b: "frames b0 h0 S (hreg_body e nhf hreg st)" by (rule hreg_body_frames[OF Cons.prems])
  show ?case
  proof (cases "hreg_body e nhf hreg st")
    case None
    then show ?thesis by (simp add: frames_def)
  next
    case (Some r)
    show ?thesis
    proof (cases r)
      case (Abort a)
      then show ?thesis using Some by (simp add: frames_def)
    next
      case (Failed s)
      then show ?thesis using Some b by (simp add: frames_def)
    next
      case (Done left st1)
      then have g1: "frame_ok b0 h0 S st1" using Some b by (simp add: frames_def)
      from Cons.IH[OF g1] show ?thesis using Some Done g1 by (simp add: frames_def)
    qed
  qed
qed

lemma delta_walk_frames: "frame_ok b0 h0 S st \<Longrightarrow> frames b0 h0 S (delta_walk e nhf st)"
  unfolding delta_walk_def
  by (intro frames_obind hreg_loop_frames frames_opt[OF final_loop_frames] | assumption)+

lemma delta_setup_Done:
  assumes "delta_setup e curranges hfile infd ssect nhf st = Done u st1"
  shows "heap st1 = heap st \<and> brk st1 = brk st \<and>
         dummy_head st1 = \<lparr>r_start = - 1, r_size = 0, r_next = Null\<rparr> \<and>
         range_tail st1 = Dummy_head \<and> drange st1 = Tmprange \<and>
         call_log st1 = call_log st @ (if nhf then [Savefixups] else [])"
proof -
  from assms have nn: "curranges \<noteq> Null" by (auto simp: delta_setup_def split: if_splits)
  from assms nn obtain hi s1 where
    rd: "old_signature e hfile (st\<lparr>imagefd := infd, poffset := ssect\<rparr>) = Done hi s1"
    unfolding delta_setup_def
    by (cases "old_signature e hfile (st\<lparr>imagefd := infd, poffset := ssect\<rparr>)") simp_all
  note v = old_signature_view[OF rd] select_hash_view[of hi s1]
  from assms nn have "COPYRANGE curranges
      (let st3 = (select_hash hi s1)\<lparr>hinfo := Some hi,
                             dummy_head := \<lparr>r_start = - 1, r_size = 0, r_next = Null\<rparr>,
                             range_tail := Dummy_head\<rparr>
       in if nhf then st3\<lparr>fx := e_savefixups e (fx st3), call_log := call_log st3 @ [Savefixups]\<rparr>
          else st3) = Done u st1"
    unfolding delta_setup_def by (simp add: rd Let_def)
  then show ?thesis
    using v nn by (auto simp: COPYRANGE_def Let_def split: if_splits option.splits)
qed

lemma delta_start_frame_ok:
  fixes st :: "'fx hstate"
  assumes su: "delta_setup e curranges hfile infd ssect nhf st = Done u st1"
  shows "frame_ok (brk st) (heap st) (statics st1) st1"
  using delta_setup_Done[OF su]
  by (auto simp: frame_ok_def framed_def outlist_def chain_def intro!: exI[where x="[]"])

lemma delta_walk_statics:
  fixes st :: "'fx hstate"
  assumes su: "delta_setup e curranges hfile infd ssect nhf st = Done u st1"
    and wk: "delta_walk e nhf st1 = Some (Done u2 st2) \<or> delta_walk e nhf st1 = Some (Failed st2)"
  shows "frame_ok (brk st) (heap st) (statics st1) st2"
  using delta_walk_frames[OF delta_start_frame_ok[OF su], of e nhf] wk
  by (auto simp: frames_def)

lemma delta_start_walk_ok:
  fixes st :: "'fx hstate"
  assumes ch: "chain (heap st) (Node a) xs"
    and fresh: "\<forall>a \<ge> brk st. heap st a = None"
    and sm: "\<forall>r \<in> set (map snd xs). small r"
    and su: "delta_setup e (Node a) hfile infd ssect nhf st = Done u st1"
  shows "walk_ok (brk st) (heap st) (cov (map snd xs)) M (statics st1) st1"
proof -
  note v = delta_setup_Node[OF su]
  obtain s z rest where xs: "xs = (a, s, z) # rest"
    using ch by (cases xs) (auto simp: chain_def)
  from ch xs v have t: "r_start (tmprange st1) = s" "r_size (tmprange st1) = z"
    and c: "chain (heap st) (r_next (tmprange st1)) rest"
    by (auto simp: chain_def)
  have below: "\<forall>a \<in> fst ` set xs. a < brk st"
  proof
    fix b assume "b \<in> fst ` set xs"
    then have "heap st b \<noteq> None" using path_allocated[OF ch[unfolded chain_def]] by blast
    then show "b < brk st" using fresh by (meson not_le_imp_less)
  qed
  have "walk_at (brk st) (heap st) (statics st1) st1 [] (map snd xs)"
    unfolding walk_at_def outlist_def remaining_def
    using v t c below sm
    by (auto simp: xs chain_def intro!: exI[where x=rest])
  then show ?thesis
    unfolding walk_ok_walk_at by (intro exI[where x="[]"] exI[where x="map snd xs"]) simp
qed

subsection \<open>What hashmap_compute_delta returns\<close>

lemmas delta_eval =
  hashmap_compute_delta_def delta_setup_def old_signature_def readhashinfo_def select_hash_def
  COPYRANGE_def rd_range_def wr_range_def delta_walk_def hreg_body_def
  deref_drange_def assign_drange_def pre_hreg_loop.simps hreg_overlap_def head_split_def
  overlap_decision_def hash_and_cmp_def hash_range_def covered_loop.simps add_to_range_def
  add_to_hashmap_def add_to_hashmap_loop.simps addhash_def next_drange_def final_loop.simps
  delta_finish_def delta_error_def hash_new_range_def Let_def
  ex_env_def ex_env_plain_def ex_env_short_def ex_env_marked_def
  ex_hstate_def ex_hreg_def ex_ranges_def ex_sig_def
  HASH_VERSION_def HASH_VERSION_1_def HASH_VERSION_2_def HASH_VERSION_3_def REGPERBLK_def
  bytestosec_def SECSIZE_def returned_def done_state_def failed_state_def




text \<open>
  Claim C2. With hash blocks of 128 sectors, partition start 0, the single range
  \<open>[100, 160)\<close> and an old hash region \<open>[100, 160)\<close> whose hash matches the disk, and a
  new signature asked for: nothing goes to the output, but the new signature gets two
  entries, for \<open>[100, 128)\<close> and \<open>[128, 160)\<close>, each with the hash of the whole region,
  not one entry for the region.
\<close>

theorem delta_match_entry_split:
  "returned (hashmap_compute_delta ex_env_marked (Node 0) (ex_sig [ex_hreg 100 60 [100, 60]]) 3 0 True
      (ex_ranges [(100, 60, Null)])) = Some Null \<and>
   map_option nh_regions
     (done_state (hashmap_compute_delta ex_env_marked (Node 0) (ex_sig [ex_hreg 100 60 [100, 60]]) 3 0
        True (ex_ranges [(100, 60, Null)])))
     = Some [ex_hreg 100 28 [100, 60], ex_hreg 128 32 [100, 60]]"
  by (simp add: delta_eval nh_regions_def)




end

